theory Spec2Isabelle
  imports Complex_Main
begin

section \<open>The trivia game of nextpy_trivia.py\<close>

text \<open>
  The program asks each question of a list on the terminal, gives up to \<open>ATTEMPTS\<close>
  attempts per question, and prints a final score.

  Standard input is a finite list of lines followed by end of file: \<open>input()\<close> prints its
  prompt, returns the next line, and raises \<open>EOFError\<close> when there is none. Each function
  that reads returns the lines it has not consumed, so that the next question goes on from
  there. Each function that prints or plays a sound returns the list of these events, in
  order, beside its result, also when it ends in an exception.
\<close>

subsection \<open>Strings\<close>

text \<open>
  A Python string is a sequence of Unicode code points, here natural numbers. A string
  literal of the source is written \<open>lit ''...''\<close>.
\<close>

type_synonym str = "nat list"

definition lit :: "string \<Rightarrow> str" where
  "lit s = map of_char s"

text \<open>
  \<open>str.casefold\<close> replaces each code point by its full case folding, one to three code
  points, and \<open>str.strip\<close> removes from both ends the code points for which \<open>str.isspace\<close>
  holds. Both tables belong to the Unicode database of the Python build and are not part
  of the program: they are the parameter \<open>U\<close> of every function that uses them, and the
  theorems hold for every \<open>U\<close>.
\<close>

record unicode_db =
  casefold_char :: "nat \<Rightarrow> nat list"
  isspace :: "nat \<Rightarrow> bool"

definition casefold :: "unicode_db \<Rightarrow> str \<Rightarrow> str" where
  "casefold U s = concat (map (casefold_char U) s)"

definition strip :: "unicode_db \<Rightarrow> str \<Rightarrow> str" where
  "strip U s = rev (dropWhile (isspace U) (rev (dropWhile (isspace U) s)))"

text \<open>
  The two tables on the code points below 256 (ASCII and Latin-1): the capital letters
  fold to the small ones, the micro sign to the Greek mu, the sharp s to \<open>ss\<close>; the
  whitespace is U+0009 to U+000D, U+001C to U+0020, U+0085 and U+00A0. \<open>latin1_tables U\<close>
  says that \<open>U\<close> has these entries, as Python's database has; \<open>latin1\<close> is the database
  that applies the same rules to every code point, for examples in Latin-1 text.
\<close>

definition latin1_casefold :: "nat \<Rightarrow> nat list" where
  "latin1_casefold c =
     (if 0x41 \<le> c \<and> c \<le> 0x5A then [c + 32]
      else if c = 0xB5 then [0x3BC]
      else if 0xC0 \<le> c \<and> c \<le> 0xDE \<and> c \<noteq> 0xD7 then [c + 32]
      else if c = 0xDF then [0x73, 0x73]
      else [c])"

definition latin1_isspace :: "nat \<Rightarrow> bool" where
  "latin1_isspace c =
     ((0x09 \<le> c \<and> c \<le> 0x0D) \<or> (0x1C \<le> c \<and> c \<le> 0x20) \<or> c = 0x85 \<or> c = 0xA0)"

definition latin1_tables :: "unicode_db \<Rightarrow> bool" where
  "latin1_tables U =
     (\<forall>c. c < 256 \<longrightarrow> casefold_char U c = latin1_casefold c \<and> isspace U c = latin1_isspace c)"

definition latin1 :: unicode_db where
  "latin1 = \<lparr>casefold_char = latin1_casefold, isspace = latin1_isspace\<rparr>"

text \<open>\<open>in_latin1 s\<close>: the string \<open>s\<close> is Latin-1 text.\<close>

definition in_latin1 :: "str \<Rightarrow> bool" where
  "in_latin1 s = (\<forall>c \<in> set s. c < 256)"

text \<open>\<open>startswith s p\<close> is \<open>s.startswith(p)\<close>; \<open>contains s p\<close> is Python's \<open>p in s\<close> on strings.\<close>

fun startswith :: "str \<Rightarrow> str \<Rightarrow> bool" where
  "startswith s [] = True"
| "startswith [] (c # p) = False"
| "startswith (d # s) (c # p) = (d = c \<and> startswith s p)"

fun contains :: "str \<Rightarrow> str \<Rightarrow> bool" where
  "contains [] p = (p = [])"
| "contains (d # s) p = (startswith (d # s) p \<or> contains s p)"

subsection \<open>Data\<close>

text \<open>
  One entry of the questions file: the dictionary with the keys \<open>question\<close>, \<open>answer\<close> (a
  list of strings) and \<open>hint\<close>, as the fields \<open>q_question\<close>, \<open>q_answer\<close> and \<open>q_hint\<close>.
\<close>

record q_data =
  q_question :: str
  q_answer :: "str list"
  q_hint :: str

text \<open>The exceptions that leave the functions modelled here.\<close>

datatype exc = SystemExit | EOFError | ZeroDivisionError

definition ATTEMPTS :: int where
  "ATTEMPTS = 5"

text \<open>
  What the program prints and plays, one event for each call of \<open>print\<close>, \<open>input\<close> (its
  prompt), \<open>clear_screen\<close> and \<open>safe_sound\<close>, with the values that the text shows; colours
  are left out. \<open>safe_sound\<close> swallows the player's exception, so a sound is an event and
  nothing else.

  \<^item> \<open>Clear_screen\<close>, \<open>Print_welcome\<close>, \<open>Print_instructions n\<close>: the calls of \<open>greet\<close>, for
    \<open>n\<close> questions;
  \<^item> \<open>Print_question q_num question\<close>: the line \<open>Question #q_num: question\<close>;
  \<^item> \<open>Print_help_offer\<close>: the line \<open>Type "help" for a clue (will be considered as an attempt)\<close>;
  \<^item> \<open>Prompt k\<close>: the prompt \<open>Your answer (k/ATTEMPTS):\<close> of \<open>input\<close>;
  \<^item> \<open>Print_empty_notice\<close>: \<open>You didn't input anything...\<close>;
  \<^item> \<open>Print_quitting\<close>: \<open>Quitting game\<close>;
  \<^item> \<open>Print_already_asked\<close>: \<open>You've already asked for the clue before...\<close>;
  \<^item> \<open>Print_hint hint\<close>: the line \<open>Hint: hint\<close>;
  \<^item> \<open>Print_right k\<close>: \<open>You are right! (k attempts)\<close>;
  \<^item> \<open>Print_wrong\<close>: \<open>Wrong answer\<close>, followed by \<open>Print_attempt_of k\<close>, that is
    \<open>(attempt k out of ATTEMPTS)\<close>, or by \<open>Print_newline\<close>;
  \<^item> \<open>Print_failed\<close>: \<open>You failed to give the right answer in ATTEMPTS attempts\<close>;
  \<^item> \<open>Sound file blocking\<close>: \<open>safe_sound(file, blocking)\<close>.
\<close>

datatype event =
    Clear_screen
  | Print_welcome
  | Print_instructions int
  | Print_question int str
  | Print_help_offer
  | Prompt int
  | Print_empty_notice
  | Print_quitting
  | Print_already_asked
  | Print_hint str
  | Print_right int
  | Print_wrong
  | Print_attempt_of int
  | Print_newline
  | Print_failed
  | Sound string bool

text \<open>\<open>emit out r\<close>: the events \<open>out\<close> happen, then the computation \<open>r\<close> with its events.\<close>

definition emit :: "event list \<Rightarrow> event list \<times> 'a \<Rightarrow> event list \<times> 'a" where
  "emit out r = (out @ fst r, snd r)"

subsection \<open>right_answer\<close>

text \<open>
  \<^verbatim>\<open>for answer in answers:
    if answer.casefold() in given_answer: return True
return False\<close>
\<close>

fun right_answer :: "unicode_db \<Rightarrow> str \<Rightarrow> str list \<Rightarrow> bool" where
  "right_answer U given_answer [] = False"
| "right_answer U given_answer (a # answers) =
     (if contains given_answer (casefold U a) then True else right_answer U given_answer answers)"

subsection \<open>run_single_question\<close>

text \<open>
  The inner \<open>while True\<close> loop: prompt with \<open>attempt + 1\<close>, read a line, strip and case-fold
  it; print the notice and read again on an empty answer, raise \<open>SystemExit\<close> on \<open>quit\<close> or
  \<open>exit\<close>, and leave the loop with any other answer. The result is the answer with the
  lines that are left.
\<close>

fun read_answer :: "unicode_db \<Rightarrow> int \<Rightarrow> str list \<Rightarrow> event list \<times> (exc + (str \<times> str list))" where
  "read_answer U attempt [] = ([Prompt (attempt + 1)], Inl EOFError)"
| "read_answer U attempt (line # rest) =
     (let answer = casefold U (strip U line) in
      if answer = [] then
        emit [Prompt (attempt + 1), Print_empty_notice] (read_answer U attempt rest)
      else if answer \<in> set [lit ''quit'', lit ''exit''] then
        ([Prompt (attempt + 1), Print_quitting], Inl SystemExit)
      else ([Prompt (attempt + 1)], Inr (answer, rest)))"

text \<open>
  The outer loop \<open>while attempt < ATTEMPTS\<close>, from the state \<open>attempt\<close>, \<open>clue_used\<close> at its
  head. A hint request counts the attempt, sets \<open>clue_used\<close> and goes back to the loop
  condition (\<open>continue\<close>); a right answer returns \<open>attempt\<close>; a wrong one goes round again.
  When the condition fails the function returns 0.
\<close>

function run_loop ::
  "unicode_db \<Rightarrow> q_data \<Rightarrow> int \<Rightarrow> int \<Rightarrow> bool \<Rightarrow> str list \<Rightarrow> event list \<times> (exc + (int \<times> str list))" where
  "run_loop U q q_num attempt clue_used ins =
     (if attempt < ATTEMPTS then
        emit (Print_question q_num (q_question q) # (if \<not> clue_used then [Print_help_offer] else []))
          (case read_answer U attempt ins of
             (out, Inl e) \<Rightarrow> (out, Inl e)
           | (out, Inr (answer, rest)) \<Rightarrow>
               emit out
                 (let attempt' = attempt + 1 in
                  if answer \<in> set [lit ''help'', lit ''clue'', lit ''hint''] then
                    emit ((if clue_used then [Print_already_asked] else []) @
                          [Print_hint (q_hint q), Sound ''beep.mp3'' False])
                      (run_loop U q q_num attempt' True rest)
                  else if right_answer U answer (q_answer q) then
                    ([Print_right attempt', Sound ''short-success.mp3'' True], Inr (attempt', rest))
                  else
                    emit (Print_wrong #
                          (if attempt' < ATTEMPTS
                           then [Print_attempt_of attempt', Sound ''fail.mp3'' False]
                           else [Print_newline]))
                      (run_loop U q q_num attempt' clue_used rest)))
      else ([Print_failed, Sound ''power-down.mp3'' True], Inr (0, ins)))"
  by pat_completeness auto
termination
  by (relation "measure (\<lambda>(U, q, q_num, attempt, clue_used, ins). nat (ATTEMPTS - attempt))") auto

declare run_loop.simps [simp del]

definition run_single_question ::
  "unicode_db \<Rightarrow> q_data \<Rightarrow> int \<Rightarrow> str list \<Rightarrow> event list \<times> (exc + (int \<times> str list))" where
  "run_single_question U q q_num ins = run_loop U q q_num 0 False ins"

subsection \<open>end_game\<close>

text \<open>
  \<open>end_game\<close> computes with Python floats: \<open>/\<close> on two integers and \<open>-\<close> on a float each
  return the exact result rounded to the nearest double. The rounding is the parameter
  \<open>rnd\<close>; \<open>float_rounding\<close> states the two facts about it that the theorems use: it is
  monotone, and it leaves the integers up to \<open>2 ^ 53\<close> in magnitude, which are doubles,
  as they are. Exact arithmetic (\<open>rnd\<close> the identity) is one instance.

  The division raises \<open>ZeroDivisionError\<close> on an empty list. (Python raises
  \<open>OverflowError\<close> when the quotient is beyond the range of a double, which takes a
  result of more than three hundred digits; the model leaves that case out.) What the
  function prints and plays is returned as a record: the number of answered questions and
  of all questions, the score, its colour and the sound file.
\<close>

definition float_rounding :: "(real \<Rightarrow> real) \<Rightarrow> bool" where
  "float_rounding rnd =
     (mono rnd \<and> (\<forall>k::int. \<bar>k\<bar> \<le> 2 ^ 53 \<longrightarrow> rnd (of_int k) = of_int k))"

record game_over =
  answered :: int
  out_of :: int
  final_score :: real
  final_color :: string
  final_sound :: string

definition end_game :: "(real \<Rightarrow> real) \<Rightarrow> int list \<Rightarrow> exc + game_over" where
  "end_game rnd results =
     (let unanswered_questions = int (count_list results 0);
          overall_attempts = sum_list results
      in if length results = 0 then Inl ZeroDivisionError
      else
        let avg_attempts_per_q =
              rnd (of_int (overall_attempts + unanswered_questions * 10) / of_int (int (length results)));
            score = (if unanswered_questions \<noteq> 0 then rnd (10 - avg_attempts_per_q)
                     else rnd (11 - avg_attempts_per_q));
            score_color = (if score < 6 then ''red'' else ''white'');
            score_color = (if score \<ge> 9 then ''green'' else score_color)
        in Inr \<lparr> answered = int (length results) - unanswered_questions,
                 out_of = int (length results),
                 final_score = score,
                 final_color = score_color,
                 final_sound = (if score_color = ''red'' then ''notification.mp3'' else ''happy-end.mp3'') \<rparr>)"

subsection \<open>main\<close>

text \<open>
  The loop of \<open>main\<close> over the questions, which appends each result to \<open>results\<close>; an
  exception of \<open>run_single_question\<close> leaves the loop and the program. \<open>main\<close> is given
  the questions as \<open>read_questions_file\<close> and \<open>random.shuffle\<close> left them; it greets,
  asks the questions and ends the game. What \<open>end_game\<close> prints is in its record.
\<close>

fun ask_all ::
  "unicode_db \<Rightarrow> q_data list \<Rightarrow> int \<Rightarrow> int list \<Rightarrow> str list \<Rightarrow>
   event list \<times> (exc + (int list \<times> str list))" where
  "ask_all U [] i results ins = ([], Inr (results, ins))"
| "ask_all U (q # qs) i results ins =
     (case run_single_question U q (i + 1) ins of
        (out, Inl e) \<Rightarrow> (out, Inl e)
      | (out, Inr (result, rest)) \<Rightarrow> emit out (ask_all U qs (i + 1) (results @ [result]) rest))"

definition greet :: "int \<Rightarrow> event list" where
  "greet num_of_questions =
     [Clear_screen, Print_welcome, Print_instructions num_of_questions, Sound ''opening.mp3'' False]"

definition main ::
  "unicode_db \<Rightarrow> (real \<Rightarrow> real) \<Rightarrow> q_data list \<Rightarrow> str list \<Rightarrow> event list \<times> (exc + game_over)" where
  "main U rnd questions_data ins =
     emit (greet (int (length questions_data)))
       (case ask_all U questions_data 0 [] ins of
          (out, Inl e) \<Rightarrow> (out, Inl e)
        | (out, Inr (results, rest)) \<Rightarrow> (out, end_game rnd results))"

subsection \<open>The kinds of input line\<close>

text \<open>
  For the statements about sessions: the branch of \<open>run_single_question\<close> that a line
  typed for question \<open>q\<close> takes, in the order in which the function tests it, and the
  number of lines of one kind in a list of lines.
\<close>

datatype line_kind = Blank | Quit | Hint | Correct | Wrong

definition kind_of :: "unicode_db \<Rightarrow> q_data \<Rightarrow> str \<Rightarrow> line_kind" where
  "kind_of U q line =
     (let answer = casefold U (strip U line) in
      if answer = [] then Blank
      else if answer \<in> set [lit ''quit'', lit ''exit''] then Quit
      else if answer \<in> set [lit ''help'', lit ''clue'', lit ''hint''] then Hint
      else if right_answer U answer (q_answer q) then Correct
      else Wrong)"

definition count_kind :: "unicode_db \<Rightarrow> q_data \<Rightarrow> line_kind \<Rightarrow> str list \<Rightarrow> int" where
  "count_kind U q k lines = int (length (filter (\<lambda>line. kind_of U q line = k) lines))"

subsection \<open>The parts of the loop body\<close>

text \<open>
  For the statements and proofs about \<open>run_loop\<close>: \<open>header\<close> is what the loop prints
  before the prompt, and \<open>after_read\<close> is the rest of the loop body, from the result of
  the prompt loop on. \<open>run_loop\<close> is the header followed by \<open>after_read\<close> of \<open>read_answer\<close>
  whenever an attempt is left (lemma \<open>run_loop_unfold\<close>).
\<close>

definition header :: "q_data \<Rightarrow> int \<Rightarrow> bool \<Rightarrow> event list" where
  "header q q_num clue_used =
     Print_question q_num (q_question q) # (if \<not> clue_used then [Print_help_offer] else [])"

definition after_read ::
  "unicode_db \<Rightarrow> q_data \<Rightarrow> int \<Rightarrow> int \<Rightarrow> bool \<Rightarrow> event list \<times> (exc + (str \<times> str list)) \<Rightarrow>
   event list \<times> (exc + (int \<times> str list))" where
  "after_read U q q_num attempt clue_used rd =
     (case rd of
        (out, Inl e) \<Rightarrow> (out, Inl e)
      | (out, Inr (answer, rest)) \<Rightarrow>
          emit out
            (let attempt' = attempt + 1 in
             if answer \<in> set [lit ''help'', lit ''clue'', lit ''hint''] then
               emit ((if clue_used then [Print_already_asked] else []) @
                     [Print_hint (q_hint q), Sound ''beep.mp3'' False])
                 (run_loop U q q_num attempt' True rest)
             else if right_answer U answer (q_answer q) then
               ([Print_right attempt', Sound ''short-success.mp3'' True], Inr (attempt', rest))
             else
               emit (Print_wrong #
                     (if attempt' < ATTEMPTS
                      then [Print_attempt_of attempt', Sound ''fail.mp3'' False]
                      else [Print_newline]))
                 (run_loop U q q_num attempt' clue_used rest)))"

section \<open>Auxiliary facts\<close>

subsection \<open>Strings and the correctness check\<close>


lemma startswith_iff: "startswith s p \<longleftrightarrow> (\<exists>suf. s = p @ suf)"
  by (induction s p rule: startswith.induct) auto

lemma contains_iff: "contains s p \<longleftrightarrow> (\<exists>pre suf. s = pre @ p @ suf)"
proof (induction s)
  case Nil
  show ?case by simp
next
  case (Cons d s)
  show ?case
  proof
    assume "contains (d # s) p"
    then consider "startswith (d # s) p" | "contains s p" by auto
    then show "\<exists>pre suf. d # s = pre @ p @ suf"
    proof cases
      case 1
      then obtain suf where "d # s = p @ suf" by (auto simp: startswith_iff)
      then have "d # s = [] @ p @ suf" by simp
      then show ?thesis by blast
    next
      case 2
      then obtain pre suf where "s = pre @ p @ suf" using Cons.IH by blast
      then have "d # s = (d # pre) @ p @ suf" by simp
      then show ?thesis by blast
    qed
  next
    assume "\<exists>pre suf. d # s = pre @ p @ suf"
    then obtain pre suf where eq: "d # s = pre @ p @ suf" by blast
    show "contains (d # s) p"
    proof (cases pre)
      case Nil
      with eq have "startswith (d # s) p" by (auto simp: startswith_iff)
      then show ?thesis by simp
    next
      case (Cons e pre')
      with eq have "s = pre' @ p @ suf" by simp
      then have "contains s p" using Cons.IH by blast
      then show ?thesis by simp
    qed
  qed
qed

lemma contains_empty: "contains s []"
  by (cases s) auto

lemma right_answer_iff:
  "right_answer U given_answer answers \<longleftrightarrow>
   (\<exists>a \<in> set answers. contains given_answer (casefold U a))"
  by (induction answers) auto

lemma strip_Nil_iff: "strip U s = [] \<longleftrightarrow> (\<forall>c \<in> set s. isspace U c)"
proof
  assume "strip U s = []"
  then have "\<forall>c \<in> set (dropWhile (isspace U) s). isspace U c"
    by (simp add: strip_def dropWhile_eq_Nil_conv)
  then have "dropWhile (isspace U) s = []"
    by (metis hd_dropWhile hd_in_set)
  then show "\<forall>c \<in> set s. isspace U c" by (simp add: dropWhile_eq_Nil_conv)
next
  assume "\<forall>c \<in> set s. isspace U c"
  then have d: "dropWhile (isspace U) s = []" by (simp add: dropWhile_eq_Nil_conv)
  show "strip U s = []" unfolding strip_def d by simp
qed

subsection \<open>One pass of the loop of run_single_question\<close>


lemma fst_emit: "fst (emit out r) = out @ fst r"
  by (simp add: emit_def)

lemma snd_emit: "snd (emit out r) = snd r"
  by (simp add: emit_def)

lemma emit_emit: "emit a (emit b r) = emit (a @ b) r"
  by (simp add: emit_def)

lemma emit_pair: "emit a (out, r) = (a @ out, r)"
  by (simp add: emit_def)

lemma emit_Nil: "emit [] r = r"
  by (simp add: emit_def)

lemma run_loop_unfold:
  "attempt < ATTEMPTS \<Longrightarrow>
   run_loop U q q_num attempt clue_used ins =
     emit (header q q_num clue_used) (after_read U q q_num attempt clue_used (read_answer U attempt ins))"
  by (subst run_loop.simps) (simp only: after_read_def header_def if_True)

lemma run_loop_exhausted:
  "\<not> attempt < ATTEMPTS \<Longrightarrow>
   run_loop U q q_num attempt clue_used ins = ([Print_failed, Sound ''power-down.mp3'' True], Inr (0, ins))"
  by (subst run_loop.simps) (simp only: if_False)

lemma after_read_emit:
  "after_read U q q_num attempt clue_used (emit out rd) =
   emit out (after_read U q q_num attempt clue_used rd)"
proof (cases rd)
  case (Pair out' r)
  show ?thesis
  proof (cases r)
    case (Inl e)
    with Pair show ?thesis by (simp add: after_read_def emit_def)
  next
    case (Inr p)
    obtain answer rest where "p = (answer, rest)" by (cases p)
    with Pair Inr show ?thesis by (simp add: after_read_def emit_def)
  qed
qed

lemma after_read_Inl: "after_read U q q_num attempt clue_used (out, Inl e) = (out, Inl e)"
  by (simp add: after_read_def)


lemma after_read_Inr:
  "after_read U q q_num attempt clue_used (out, Inr (answer, rest)) =
     emit out
       (if answer \<in> set [lit ''help'', lit ''clue'', lit ''hint''] then
          emit ((if clue_used then [Print_already_asked] else []) @
                [Print_hint (q_hint q), Sound ''beep.mp3'' False])
            (run_loop U q q_num (attempt + 1) True rest)
        else if right_answer U answer (q_answer q) then
          ([Print_right (attempt + 1), Sound ''short-success.mp3'' True], Inr (attempt + 1, rest))
        else
          emit (Print_wrong #
                (if attempt + 1 < ATTEMPTS
                 then [Print_attempt_of (attempt + 1), Sound ''fail.mp3'' False]
                 else [Print_newline]))
            (run_loop U q q_num (attempt + 1) clue_used rest))"
  by (simp only: after_read_def prod.case sum.case Let_def)

lemma read_answer_Blank:
  "kind_of U q line = Blank \<Longrightarrow>
   read_answer U attempt (line # ins) =
     emit [Prompt (attempt + 1), Print_empty_notice] (read_answer U attempt ins)"
  by (simp add: kind_of_def Let_def split: if_splits)

lemma kind_of_Quit:
  "kind_of U q line = Quit \<Longrightarrow>
   casefold U (strip U line) \<noteq> [] \<and> casefold U (strip U line) \<in> set [lit ''quit'', lit ''exit'']"
  by (simp add: kind_of_def Let_def split: if_splits)

lemma read_answer_Quit:
  assumes "kind_of U q line = Quit"
  shows "read_answer U attempt (line # ins) = ([Prompt (attempt + 1), Print_quitting], Inl SystemExit)"
proof -
  from kind_of_Quit[OF assms] have "casefold U (strip U line) \<noteq> []"
    and "casefold U (strip U line) \<in> set [lit ''quit'', lit ''exit'']" by simp_all
  then show ?thesis by (simp only: read_answer.simps Let_def if_False if_True)
qed

lemma read_answer_other:
  "kind_of U q line \<noteq> Blank \<Longrightarrow> kind_of U q line \<noteq> Quit \<Longrightarrow>
   read_answer U attempt (line # ins) = ([Prompt (attempt + 1)], Inr (casefold U (strip U line), ins))"
  by (simp add: kind_of_def Let_def split: if_splits)

lemma kind_of_Hint:
  "kind_of U q line = Hint \<Longrightarrow>
   casefold U (strip U line) \<in> set [lit ''help'', lit ''clue'', lit ''hint'']"
  by (simp add: kind_of_def Let_def split: if_splits)

lemma kind_of_Correct:
  "kind_of U q line = Correct \<Longrightarrow>
   casefold U (strip U line) \<notin> set [lit ''help'', lit ''clue'', lit ''hint''] \<and>
   right_answer U (casefold U (strip U line)) (q_answer q)"
  by (simp add: kind_of_def Let_def split: if_splits)

lemma kind_of_Wrong:
  "kind_of U q line = Wrong \<Longrightarrow>
   casefold U (strip U line) \<notin> set [lit ''help'', lit ''clue'', lit ''hint''] \<and>
   \<not> right_answer U (casefold U (strip U line)) (q_answer q)"
  by (simp add: kind_of_def Let_def split: if_splits)

lemma run_loop_Blank:
  assumes "attempt < ATTEMPTS" and "kind_of U q line = Blank"
  shows "run_loop U q q_num attempt clue_used (line # ins) =
     emit (header q q_num clue_used @ [Prompt (attempt + 1), Print_empty_notice])
       (after_read U q q_num attempt clue_used (read_answer U attempt ins))"
  by (simp only: run_loop_unfold[OF assms(1)] read_answer_Blank[OF assms(2)] after_read_emit emit_emit)

lemma run_loop_Quit:
  assumes "attempt < ATTEMPTS" and "kind_of U q line = Quit"
  shows "run_loop U q q_num attempt clue_used (line # ins) =
     (header q q_num clue_used @ [Prompt (attempt + 1), Print_quitting], Inl SystemExit)"
  by (simp only: run_loop_unfold[OF assms(1)] read_answer_Quit[OF assms(2)] after_read_Inl emit_pair)

lemma run_loop_Hint:
  assumes "attempt < ATTEMPTS" and "kind_of U q line = Hint"
  shows "run_loop U q q_num attempt clue_used (line # ins) =
     emit (header q q_num clue_used @ [Prompt (attempt + 1)] @
           (if clue_used then [Print_already_asked] else []) @
           [Print_hint (q_hint q), Sound ''beep.mp3'' False])
       (run_loop U q q_num (attempt + 1) True ins)"
proof -
  have r: "read_answer U attempt (line # ins) =
      ([Prompt (attempt + 1)], Inr (casefold U (strip U line), ins))"
    using assms(2) by (intro read_answer_other[where q = q]) simp_all
  show ?thesis
    by (simp only: run_loop_unfold[OF assms(1)] r after_read_Inr kind_of_Hint[OF assms(2)] if_True
        emit_emit)
qed

lemma run_loop_Correct:
  assumes "attempt < ATTEMPTS" and "kind_of U q line = Correct"
  shows "run_loop U q q_num attempt clue_used (line # ins) =
     (header q q_num clue_used @
      [Prompt (attempt + 1), Print_right (attempt + 1), Sound ''short-success.mp3'' True],
      Inr (attempt + 1, ins))"
proof -
  have r: "read_answer U attempt (line # ins) =
      ([Prompt (attempt + 1)], Inr (casefold U (strip U line), ins))"
    using assms(2) by (intro read_answer_other[where q = q]) simp_all
  from kind_of_Correct[OF assms(2)] show ?thesis
    unfolding run_loop_unfold[OF assms(1)] r after_read_Inr by (simp add: emit_def)
qed

lemma run_loop_Wrong:
  assumes "attempt < ATTEMPTS" and "kind_of U q line = Wrong"
  shows "run_loop U q q_num attempt clue_used (line # ins) =
     emit (header q q_num clue_used @ [Prompt (attempt + 1), Print_wrong] @
           (if attempt + 1 < ATTEMPTS
            then [Print_attempt_of (attempt + 1), Sound ''fail.mp3'' False]
            else [Print_newline]))
       (run_loop U q q_num (attempt + 1) clue_used ins)"
proof -
  have r: "read_answer U attempt (line # ins) =
      ([Prompt (attempt + 1)], Inr (casefold U (strip U line), ins))"
    using assms(2) by (intro read_answer_other[where q = q]) simp_all
  from kind_of_Wrong[OF assms(2)] show ?thesis
    unfolding run_loop_unfold[OF assms(1)] r after_read_Inr by (simp add: emit_def)
qed

lemma snd_run_loop_kind:
  assumes "attempt < ATTEMPTS"
  shows "snd (run_loop U q q_num attempt clue_used (line # ins)) =
     (case kind_of U q line of
        Blank \<Rightarrow> snd (run_loop U q q_num attempt clue_used ins)
      | Quit \<Rightarrow> Inl SystemExit
      | Hint \<Rightarrow> snd (run_loop U q q_num (attempt + 1) True ins)
      | Correct \<Rightarrow> Inr (attempt + 1, ins)
      | Wrong \<Rightarrow> snd (run_loop U q q_num (attempt + 1) clue_used ins))"
proof (cases "kind_of U q line")
  case Blank
  then show ?thesis
    by (simp add: run_loop_Blank[OF assms Blank] run_loop_unfold[OF assms, of U q q_num clue_used ins]
        snd_emit)
next
  case Quit
  then show ?thesis by (simp add: run_loop_Quit[OF assms Quit])
next
  case Hint
  then show ?thesis by (simp add: run_loop_Hint[OF assms Hint] snd_emit)
next
  case Correct
  then show ?thesis by (simp add: run_loop_Correct[OF assms Correct])
next
  case Wrong
  then show ?thesis by (simp add: run_loop_Wrong[OF assms Wrong] snd_emit)
qed

lemma snd_run_loop_EOF:
  "attempt < ATTEMPTS \<Longrightarrow> snd (run_loop U q q_num attempt clue_used []) = Inl EOFError"
  by (simp add: run_loop_unfold after_read_Inl snd_emit)

lemma snd_run_loop_exhausted:
  "\<not> attempt < ATTEMPTS \<Longrightarrow> snd (run_loop U q q_num attempt clue_used ins) = Inr (0, ins)"
  by (simp add: run_loop_exhausted)

subsection \<open>The outcome of a session\<close>


lemma run_loop_range:
  "snd (run_loop U q q_num attempt clue_used ins) = Inr (r, rest) \<Longrightarrow>
   r = 0 \<or> (attempt < r \<and> r \<le> ATTEMPTS)"
proof (induction ins arbitrary: attempt clue_used)
  case Nil
  then show ?case
    by (cases "attempt < ATTEMPTS") (simp_all add: snd_run_loop_EOF snd_run_loop_exhausted)
next
  case (Cons line ins)
  show ?case
  proof (cases "attempt < ATTEMPTS")
    case False
    with Cons.prems show ?thesis by (simp add: snd_run_loop_exhausted)
  next
    case True
    show ?thesis
    proof (cases "kind_of U q line")
      case Blank
      with True Cons.prems have "snd (run_loop U q q_num attempt clue_used ins) = Inr (r, rest)"
        by (simp add: snd_run_loop_kind)
      then show ?thesis by (rule Cons.IH)
    next
      case Quit
      with True Cons.prems show ?thesis by (simp add: snd_run_loop_kind)
    next
      case Hint
      with True Cons.prems have "snd (run_loop U q q_num (attempt + 1) True ins) = Inr (r, rest)"
        by (simp add: snd_run_loop_kind)
      from Cons.IH[OF this] show ?thesis by auto
    next
      case Correct
      with True Cons.prems show ?thesis by (auto simp add: snd_run_loop_kind)
    next
      case Wrong
      with True Cons.prems have "snd (run_loop U q q_num (attempt + 1) clue_used ins) = Inr (r, rest)"
        by (simp add: snd_run_loop_kind)
      from Cons.IH[OF this] show ?thesis by auto
    qed
  qed
qed

lemma count_kind_Nil: "count_kind U q k [] = 0"
  by (simp add: count_kind_def)

lemma count_kind_Cons:
  "count_kind U q k (line # lines) = (if kind_of U q line = k then 1 else 0) + count_kind U q k lines"
  by (simp add: count_kind_def)

lemma run_loop_trace:
  "snd (run_loop U q q_num attempt clue_used ins) = Inr (r, rest) \<Longrightarrow> attempt \<le> ATTEMPTS \<Longrightarrow> 0 \<le> attempt \<Longrightarrow>
   \<exists>used. ins = used @ rest \<and> count_kind U q Quit used = 0 \<and>
     (if r = 0
      then attempt + count_kind U q Hint used + count_kind U q Wrong used = ATTEMPTS \<and>
           count_kind U q Correct used = 0
      else attempt + count_kind U q Hint used + count_kind U q Wrong used + 1 = r \<and>
           count_kind U q Correct used = 1)"
proof (induction ins arbitrary: attempt clue_used)
  case Nil
  have na: "\<not> attempt < ATTEMPTS"
  proof
    assume "attempt < ATTEMPTS"
    then have "snd (run_loop U q q_num attempt clue_used []) = Inl EOFError" by (rule snd_run_loop_EOF)
    with Nil.prems(1) show False by simp
  qed
  with Nil.prems have "r = 0" "rest = []" by (simp_all add: snd_run_loop_exhausted)
  moreover from na Nil.prems(2) have "attempt = ATTEMPTS" by simp
  ultimately show ?case by (simp add: count_kind_Nil)
next
  case (Cons line ins)
  show ?case
  proof (cases "attempt < ATTEMPTS")
    case False
    with Cons.prems have "r = 0" "rest = line # ins"
      by (simp_all add: snd_run_loop_exhausted)
    moreover from False Cons.prems(2) have "attempt = ATTEMPTS" by simp
    ultimately have "line # ins = [] @ rest \<and> count_kind U q Quit [] = 0 \<and>
      (if r = 0
       then attempt + count_kind U q Hint [] + count_kind U q Wrong [] = ATTEMPTS \<and>
            count_kind U q Correct [] = 0
       else attempt + count_kind U q Hint [] + count_kind U q Wrong [] + 1 = r \<and>
            count_kind U q Correct [] = 1)"
      by (simp add: count_kind_Nil)
    then show ?thesis by blast
  next
    case True
    have step: "\<exists>used. line # ins = used @ rest \<and> count_kind U q Quit used = 0 \<and>
      (if r = 0
       then attempt + count_kind U q Hint used + count_kind U q Wrong used = ATTEMPTS \<and>
            count_kind U q Correct used = 0
       else attempt + count_kind U q Hint used + count_kind U q Wrong used + 1 = r \<and>
            count_kind U q Correct used = 1)"
      if run: "snd (run_loop U q q_num a' c' ins) = Inr (r, rest)" and a': "a' \<le> ATTEMPTS" and a0: "0 \<le> a'"
        and k: "kind_of U q line \<noteq> Quit" "kind_of U q line \<noteq> Correct"
        and a: "a' = attempt + (if kind_of U q line = Hint then 1 else 0)
                   + (if kind_of U q line = Wrong then 1 else 0)"
      for a' c'
    proof -
      from Cons.IH[OF run a' a0] obtain used where u: "ins = used @ rest"
        "count_kind U q Quit used = 0"
        "if r = 0
         then a' + count_kind U q Hint used + count_kind U q Wrong used = ATTEMPTS \<and>
              count_kind U q Correct used = 0
         else a' + count_kind U q Hint used + count_kind U q Wrong used + 1 = r \<and>
              count_kind U q Correct used = 1"
        by blast
      have "line # ins = (line # used) @ rest" using u(1) by simp
      moreover have "count_kind U q Quit (line # used) = 0"
        using u(2) k by (simp add: count_kind_Cons)
      moreover have "if r = 0
       then attempt + count_kind U q Hint (line # used) + count_kind U q Wrong (line # used) = ATTEMPTS \<and>
            count_kind U q Correct (line # used) = 0
       else attempt + count_kind U q Hint (line # used) + count_kind U q Wrong (line # used) + 1 = r \<and>
            count_kind U q Correct (line # used) = 1"
        using u(3) k a by (auto simp add: count_kind_Cons split: if_splits)
      ultimately show ?thesis by blast
    qed
    show ?thesis
    proof (cases "kind_of U q line")
      case Blank
      with True Cons.prems have "snd (run_loop U q q_num attempt clue_used ins) = Inr (r, rest)"
        by (simp add: snd_run_loop_kind)
      then show ?thesis using Cons.prems(2,3) Blank by (intro step) auto
    next
      case Quit
      with True Cons.prems show ?thesis by (simp add: snd_run_loop_kind)
    next
      case Hint
      with True Cons.prems have "snd (run_loop U q q_num (attempt + 1) True ins) = Inr (r, rest)"
        by (simp add: snd_run_loop_kind)
      then show ?thesis using True Hint Cons.prems(3) by (intro step) auto
    next
      case Correct
      with True Cons.prems have "r = attempt + 1" "rest = ins" by (simp_all add: snd_run_loop_kind)
      with Correct True have "line # ins = [line] @ rest \<and> count_kind U q Quit [line] = 0 \<and>
        (if r = 0
         then attempt + count_kind U q Hint [line] + count_kind U q Wrong [line] = ATTEMPTS \<and>
              count_kind U q Correct [line] = 0
         else attempt + count_kind U q Hint [line] + count_kind U q Wrong [line] + 1 = r \<and>
              count_kind U q Correct [line] = 1)"
        using Cons.prems(2,3) by (auto simp add: count_kind_Cons count_kind_Nil)
      then show ?thesis by blast
    next
      case Wrong
      with True Cons.prems have "snd (run_loop U q q_num (attempt + 1) clue_used ins) = Inr (r, rest)"
        by (simp add: snd_run_loop_kind)
      then show ?thesis using True Wrong Cons.prems(3) by (intro step) auto
    qed
  qed
qed

lemma run_loop_success_consumes:
  "snd (run_loop U q q_num attempt clue_used ins) = Inr (r, rest) \<Longrightarrow> r \<noteq> 0 \<Longrightarrow> length rest < length ins"
proof (induction ins arbitrary: attempt clue_used)
  case Nil
  then show ?case
    by (cases "attempt < ATTEMPTS") (simp_all add: snd_run_loop_EOF snd_run_loop_exhausted)
next
  case (Cons line ins)
  show ?case
  proof (cases "attempt < ATTEMPTS")
    case False
    with Cons.prems show ?thesis by (simp add: snd_run_loop_exhausted)
  next
    case True
    show ?thesis
    proof (cases "kind_of U q line")
      case Blank
      with True Cons.prems have "snd (run_loop U q q_num attempt clue_used ins) = Inr (r, rest)"
        by (simp add: snd_run_loop_kind)
      from Cons.IH[OF this Cons.prems(2)] show ?thesis by simp
    next
      case Quit
      with True Cons.prems show ?thesis by (simp add: snd_run_loop_kind)
    next
      case Hint
      with True Cons.prems have "snd (run_loop U q q_num (attempt + 1) True ins) = Inr (r, rest)"
        by (simp add: snd_run_loop_kind)
      from Cons.IH[OF this Cons.prems(2)] show ?thesis by simp
    next
      case Correct
      with True Cons.prems show ?thesis by (auto simp add: snd_run_loop_kind)
    next
      case Wrong
      with True Cons.prems have "snd (run_loop U q q_num (attempt + 1) clue_used ins) = Inr (r, rest)"
        by (simp add: snd_run_loop_kind)
      from Cons.IH[OF this Cons.prems(2)] show ?thesis by simp
    qed
  qed
qed

subsection \<open>Input typed at a prompt\<close>

text \<open>From here on the equations of \<open>read_answer\<close> are used through the lemmas above.\<close>

declare read_answer.simps [simp del]

lemma body_Nil:
  "after_read U q q_num attempt clue_used (read_answer U attempt []) =
     ([Prompt (attempt + 1)], Inl EOFError)"
  by (simp add: read_answer.simps after_read_Inl)

lemma body_Blank:
  "kind_of U q line = Blank \<Longrightarrow>
   after_read U q q_num attempt clue_used (read_answer U attempt (line # ins)) =
     emit [Prompt (attempt + 1), Print_empty_notice]
       (after_read U q q_num attempt clue_used (read_answer U attempt ins))"
  by (simp only: read_answer_Blank after_read_emit)

lemma body_Quit:
  "kind_of U q line = Quit \<Longrightarrow>
   after_read U q q_num attempt clue_used (read_answer U attempt (line # ins)) =
     ([Prompt (attempt + 1), Print_quitting], Inl SystemExit)"
  by (simp only: read_answer_Quit after_read_Inl)

lemma body_Hint:
  assumes "kind_of U q line = Hint"
  shows "after_read U q q_num attempt clue_used (read_answer U attempt (line # ins)) =
     emit ([Prompt (attempt + 1)] @ (if clue_used then [Print_already_asked] else []) @
           [Print_hint (q_hint q), Sound ''beep.mp3'' False])
       (run_loop U q q_num (attempt + 1) True ins)"
proof -
  have r: "read_answer U attempt (line # ins) =
      ([Prompt (attempt + 1)], Inr (casefold U (strip U line), ins))"
    using assms by (intro read_answer_other[where q = q]) simp_all
  show ?thesis
    by (simp only: r after_read_Inr kind_of_Hint[OF assms] if_True emit_emit)
qed

lemma body_Correct:
  assumes "kind_of U q line = Correct"
  shows "after_read U q q_num attempt clue_used (read_answer U attempt (line # ins)) =
     ([Prompt (attempt + 1), Print_right (attempt + 1), Sound ''short-success.mp3'' True],
      Inr (attempt + 1, ins))"
proof -
  have r: "read_answer U attempt (line # ins) =
      ([Prompt (attempt + 1)], Inr (casefold U (strip U line), ins))"
    using assms by (intro read_answer_other[where q = q]) simp_all
  from kind_of_Correct[OF assms] show ?thesis
    unfolding r after_read_Inr by (simp add: emit_def)
qed

lemma body_Wrong:
  assumes "kind_of U q line = Wrong"
  shows "after_read U q q_num attempt clue_used (read_answer U attempt (line # ins)) =
     emit ([Prompt (attempt + 1), Print_wrong] @
           (if attempt + 1 < ATTEMPTS
            then [Print_attempt_of (attempt + 1), Sound ''fail.mp3'' False]
            else [Print_newline]))
       (run_loop U q q_num (attempt + 1) clue_used ins)"
proof -
  have r: "read_answer U attempt (line # ins) =
      ([Prompt (attempt + 1)], Inr (casefold U (strip U line), ins))"
    using assms by (intro read_answer_other[where q = q]) simp_all
  from kind_of_Wrong[OF assms] show ?thesis
    unfolding r after_read_Inr by (simp add: emit_def)
qed

lemma body_starts_with_prompt:
  "\<exists>evs. fst (after_read U q q_num attempt clue_used (read_answer U attempt ins)) =
     Prompt (attempt + 1) # evs"
proof (cases ins)
  case Nil
  then show ?thesis by (simp add: read_answer.simps after_read_Inl)
next
  case (Cons line rest)
  show ?thesis
    by (cases "kind_of U q line")
      (simp_all add: Cons body_Blank body_Quit body_Hint body_Correct body_Wrong fst_emit)
qed

text \<open>
  A session that has read all of \<open>pre\<close> stands at a prompt in some state \<open>attempt'\<close>,
  \<open>clue_used'\<close>: its last event is that prompt, and on more input it goes on from there.
\<close>

lemma body_at_prompt:
  "snd (after_read U q q_num attempt clue_used (read_answer U attempt pre)) = Inl EOFError \<Longrightarrow>
   \<exists>evs attempt' clue_used'.
     fst (after_read U q q_num attempt clue_used (read_answer U attempt pre)) =
       evs @ [Prompt (attempt' + 1)] \<and>
     (\<forall>xs. after_read U q q_num attempt clue_used (read_answer U attempt (pre @ xs)) =
        emit evs (after_read U q q_num attempt' clue_used' (read_answer U attempt' xs)))"
proof (induction pre arbitrary: attempt clue_used)
  case Nil
  have "fst (after_read U q q_num attempt clue_used (read_answer U attempt [])) =
       [] @ [Prompt (attempt + 1)] \<and>
     (\<forall>xs. after_read U q q_num attempt clue_used (read_answer U attempt ([] @ xs)) =
        emit [] (after_read U q q_num attempt clue_used (read_answer U attempt xs)))"
    by (simp add: read_answer.simps after_read_Inl emit_Nil)
  then show ?case by blast
next
  case (Cons line pre)
  have via_loop: "\<exists>evs attempt' clue_used'.
     fst (emit E (run_loop U q q_num a c pre)) = evs @ [Prompt (attempt' + 1)] \<and>
     (\<forall>xs. emit E (run_loop U q q_num a c (pre @ xs)) =
        emit evs (after_read U q q_num attempt' clue_used' (read_answer U attempt' xs)))"
    if eof: "snd (run_loop U q q_num a c pre) = Inl EOFError" for E a c
  proof -
    have a: "a < ATTEMPTS"
    proof (rule ccontr)
      assume "\<not> a < ATTEMPTS"
      with eof show False by (simp add: snd_run_loop_exhausted)
    qed
    from eof have "snd (after_read U q q_num a c (read_answer U a pre)) = Inl EOFError"
      by (simp add: run_loop_unfold[OF a] snd_emit)
    from Cons.IH[OF this] obtain evs attempt' clue_used' where
      1: "fst (after_read U q q_num a c (read_answer U a pre)) = evs @ [Prompt (attempt' + 1)]"
      and 2: "\<And>xs. after_read U q q_num a c (read_answer U a (pre @ xs)) =
        emit evs (after_read U q q_num attempt' clue_used' (read_answer U attempt' xs))"
      by blast
    have "fst (emit E (run_loop U q q_num a c pre)) =
        (E @ header q q_num c @ evs) @ [Prompt (attempt' + 1)] \<and>
     (\<forall>xs. emit E (run_loop U q q_num a c (pre @ xs)) =
        emit (E @ header q q_num c @ evs)
          (after_read U q q_num attempt' clue_used' (read_answer U attempt' xs)))"
      by (simp add: run_loop_unfold[OF a] fst_emit 1 2 emit_emit)
    then show ?thesis by blast
  qed
  show ?case
  proof (cases "kind_of U q line")
    case Blank
    from Cons.prems have "snd (after_read U q q_num attempt clue_used (read_answer U attempt pre)) =
        Inl EOFError"
      by (simp add: body_Blank[OF Blank] snd_emit)
    from Cons.IH[OF this] obtain evs attempt' clue_used' where
      1: "fst (after_read U q q_num attempt clue_used (read_answer U attempt pre)) =
          evs @ [Prompt (attempt' + 1)]"
      and 2: "\<And>xs. after_read U q q_num attempt clue_used (read_answer U attempt (pre @ xs)) =
        emit evs (after_read U q q_num attempt' clue_used' (read_answer U attempt' xs))"
      by blast
    have "fst (after_read U q q_num attempt clue_used (read_answer U attempt (line # pre))) =
        ([Prompt (attempt + 1), Print_empty_notice] @ evs) @ [Prompt (attempt' + 1)] \<and>
     (\<forall>xs. after_read U q q_num attempt clue_used (read_answer U attempt ((line # pre) @ xs)) =
        emit ([Prompt (attempt + 1), Print_empty_notice] @ evs)
          (after_read U q q_num attempt' clue_used' (read_answer U attempt' xs)))"
      by (simp add: body_Blank[OF Blank] fst_emit 1 2 emit_emit)
    then show ?thesis by blast
  next
    case Quit
    with Cons.prems show ?thesis by (simp add: body_Quit[OF Quit])
  next
    case Hint
    from Cons.prems have "snd (run_loop U q q_num (attempt + 1) True pre) = Inl EOFError"
      by (simp add: body_Hint[OF Hint] snd_emit)
    from via_loop[OF this] show ?thesis
      by (simp only: body_Hint[OF Hint] append_Cons)
  next
    case Correct
    with Cons.prems show ?thesis by (simp add: body_Correct[OF Correct])
  next
    case Wrong
    from Cons.prems have "snd (run_loop U q q_num (attempt + 1) clue_used pre) = Inl EOFError"
      by (simp add: body_Wrong[OF Wrong] snd_emit)
    from via_loop[OF this] show ?thesis
      by (simp only: body_Wrong[OF Wrong] append_Cons)
  qed
qed


lemma run_loop_at_prompt:
  assumes "snd (run_loop U q q_num attempt clue_used pre) = Inl EOFError"
  shows "\<exists>evs attempt' clue_used'.
     fst (run_loop U q q_num attempt clue_used pre) = evs @ [Prompt (attempt' + 1)] \<and>
     (\<forall>xs. run_loop U q q_num attempt clue_used (pre @ xs) =
        emit evs (after_read U q q_num attempt' clue_used' (read_answer U attempt' xs)))"
proof -
  have a: "attempt < ATTEMPTS"
  proof (rule ccontr)
    assume "\<not> attempt < ATTEMPTS"
    with assms show False by (simp add: snd_run_loop_exhausted)
  qed
  from assms have "snd (after_read U q q_num attempt clue_used (read_answer U attempt pre)) =
      Inl EOFError"
    by (simp add: run_loop_unfold[OF a] snd_emit)
  from body_at_prompt[OF this] obtain evs attempt' clue_used' where
    1: "fst (after_read U q q_num attempt clue_used (read_answer U attempt pre)) =
        evs @ [Prompt (attempt' + 1)]"
    and 2: "\<And>xs. after_read U q q_num attempt clue_used (read_answer U attempt (pre @ xs)) =
      emit evs (after_read U q q_num attempt' clue_used' (read_answer U attempt' xs))"
    by blast
  have "fst (run_loop U q q_num attempt clue_used pre) =
      (header q q_num clue_used @ evs) @ [Prompt (attempt' + 1)] \<and>
     (\<forall>xs. run_loop U q q_num attempt clue_used (pre @ xs) =
        emit (header q q_num clue_used @ evs)
          (after_read U q q_num attempt' clue_used' (read_answer U attempt' xs)))"
    by (simp add: run_loop_unfold[OF a] fst_emit 1 2 emit_emit)
  then show ?thesis by blast
qed

lemma body_returns_append:
  "snd (after_read U q q_num attempt clue_used (read_answer U attempt pre)) = Inr (r, rest) \<Longrightarrow>
   after_read U q q_num attempt clue_used (read_answer U attempt (pre @ xs)) =
     (fst (after_read U q q_num attempt clue_used (read_answer U attempt pre)), Inr (r, rest @ xs))"
proof (induction pre arbitrary: attempt clue_used)
  case Nil
  then show ?case by (simp add: read_answer.simps after_read_Inl)
next
  case (Cons line pre)
  have via_loop: "emit E (run_loop U q q_num a c (pre @ xs)) =
      (fst (emit E (run_loop U q q_num a c pre)), Inr (r, rest @ xs))"
    if ret: "snd (run_loop U q q_num a c pre) = Inr (r, rest)" for E a c
  proof (cases "a < ATTEMPTS")
    case True
    from ret have "snd (after_read U q q_num a c (read_answer U a pre)) = Inr (r, rest)"
      by (simp add: run_loop_unfold[OF True] snd_emit)
    from Cons.IH[OF this] show ?thesis
      by (simp add: run_loop_unfold[OF True] emit_def)
  next
    case False
    with ret show ?thesis by (simp add: run_loop_exhausted emit_def)
  qed
  show ?case
  proof (cases "kind_of U q line")
    case Blank
    from Cons.prems have "snd (after_read U q q_num attempt clue_used (read_answer U attempt pre)) =
        Inr (r, rest)"
      by (simp add: body_Blank[OF Blank] snd_emit)
    from Cons.IH[OF this] show ?thesis
      by (simp add: body_Blank[OF Blank] emit_def)
  next
    case Quit
    with Cons.prems show ?thesis by (simp add: body_Quit[OF Quit])
  next
    case Hint
    from Cons.prems have "snd (run_loop U q q_num (attempt + 1) True pre) = Inr (r, rest)"
      by (simp add: body_Hint[OF Hint] snd_emit)
    from via_loop[OF this] show ?thesis
      by (simp only: body_Hint[OF Hint] append_Cons)
  next
    case Correct
    with Cons.prems show ?thesis by (simp add: body_Correct[OF Correct])
  next
    case Wrong
    from Cons.prems have "snd (run_loop U q q_num (attempt + 1) clue_used pre) = Inr (r, rest)"
      by (simp add: body_Wrong[OF Wrong] snd_emit)
    from via_loop[OF this] show ?thesis
      by (simp only: body_Wrong[OF Wrong] append_Cons)
  qed
qed

lemma run_loop_returns_append:
  assumes "snd (run_loop U q q_num attempt clue_used pre) = Inr (r, rest)"
  shows "run_loop U q q_num attempt clue_used (pre @ xs) =
     (fst (run_loop U q q_num attempt clue_used pre), Inr (r, rest @ xs))"
proof (cases "attempt < ATTEMPTS")
  case True
  from assms have "snd (after_read U q q_num attempt clue_used (read_answer U attempt pre)) =
      Inr (r, rest)"
    by (simp add: run_loop_unfold[OF True] snd_emit)
  from body_returns_append[OF this] show ?thesis
    by (simp add: run_loop_unfold[OF True] emit_def)
next
  case False
  with assms show ?thesis by (simp add: run_loop_exhausted)
qed

lemma run_loop_at_prompt_quit:
  assumes "snd (run_loop U q q_num attempt clue_used pre) = Inl EOFError"
    and "kind_of U q line = Quit"
  shows "run_loop U q q_num attempt clue_used (pre @ line # ins) =
     (fst (run_loop U q q_num attempt clue_used pre) @ [Print_quitting], Inl SystemExit)"
proof -
  from run_loop_at_prompt[OF assms(1)] obtain evs attempt' clue_used' where
    1: "fst (run_loop U q q_num attempt clue_used pre) = evs @ [Prompt (attempt' + 1)]"
    and 2: "\<And>xs. run_loop U q q_num attempt clue_used (pre @ xs) =
        emit evs (after_read U q q_num attempt' clue_used' (read_answer U attempt' xs))"
    by blast
  show ?thesis by (simp add: 1 2 body_Quit[OF assms(2)] emit_def)
qed

lemma kind_of_Quit_iff:
  "kind_of U q line = Quit \<longleftrightarrow> casefold U (strip U line) \<in> set [lit ''quit'', lit ''exit'']"
  by (auto simp add: kind_of_def Let_def lit_def)

lemma kind_of_Blank_iff: "kind_of U q line = Blank \<longleftrightarrow> casefold U (strip U line) = []"
  by (simp add: kind_of_def Let_def)

lemma kind_of_Hint_iff:
  "kind_of U q line = Hint \<longleftrightarrow> casefold U (strip U line) \<in> set [lit ''help'', lit ''clue'', lit ''hint'']"
  by (auto simp add: kind_of_def Let_def lit_def)

lemma ask_all_at_prompt_quit:
  "snd (ask_all U qs i results pre) = Inl EOFError \<Longrightarrow>
   casefold U (strip U line) \<in> set [lit ''quit'', lit ''exit''] \<Longrightarrow>
   ask_all U qs i results (pre @ line # ins) =
     (fst (ask_all U qs i results pre) @ [Print_quitting], Inl SystemExit)"
proof (induction qs arbitrary: i results pre)
  case Nil
  then show ?case by simp
next
  case (Cons q qs)
  obtain out res where rq: "run_single_question U q (i + 1) pre = (out, res)"
    by (cases "run_single_question U q (i + 1) pre")
  have quit: "kind_of U q line = Quit" using Cons.prems(2) by (simp only: kind_of_Quit_iff)
  show ?case
  proof (cases res)
    case (Inl e)
    with Cons.prems(1) rq have "e = EOFError" by simp
    with Inl rq have "snd (run_loop U q (i + 1) 0 False pre) = Inl EOFError"
      by (simp add: run_single_question_def)
    from run_loop_at_prompt_quit[OF this quit, of ins] rq Inl show ?thesis
      by (simp add: run_single_question_def)
  next
    case (Inr p)
    obtain r rest where p: "p = (r, rest)" by (cases p)
    with Inr rq have "snd (run_loop U q (i + 1) 0 False pre) = Inr (r, rest)"
      by (simp add: run_single_question_def)
    from run_loop_returns_append[OF this, of "line # ins"] rq
    have ap: "run_single_question U q (i + 1) (pre @ line # ins) = (out, Inr (r, rest @ line # ins))"
      by (simp add: run_single_question_def)
    from Cons.prems(1) rq Inr p
    have "snd (ask_all U qs (i + 1) (results @ [r]) rest) = Inl EOFError"
      by (simp add: snd_emit)
    from Cons.IH[OF this Cons.prems(2)] ap rq Inr p show ?thesis
      by (simp add: emit_def)
  qed
qed

subsection \<open>Rounding and the score\<close>

lemma float_rounding_int:
  "float_rounding rnd \<Longrightarrow> \<bar>k\<bar> \<le> 2 ^ 53 \<Longrightarrow> rnd (of_int k) = of_int k"
  by (simp add: float_rounding_def)

lemma float_rounding_mono:
  "float_rounding rnd \<Longrightarrow> x \<le> y \<Longrightarrow> rnd x \<le> rnd y"
  by (simp add: float_rounding_def mono_def)

lemma float_rounding_exact: "float_rounding (\<lambda>x. x)"
  by (simp add: float_rounding_def mono_def)

lemma count_list_0_iff: "count_list xs x = 0 \<longleftrightarrow> x \<notin> set xs"
  by (induction xs) auto

lemma count_list_filter: "count_list xs x = length (filter (\<lambda>y. y = x) xs)"
  by (induction xs) auto

lemma end_game_score:
  "results \<noteq> [] \<Longrightarrow>
   \<exists>g. end_game rnd results = Inr g \<and>
     final_score g =
       (if count_list results 0 \<noteq> 0
        then rnd (10 - rnd (of_int (sum_list results + int (count_list results 0) * 10) / of_int (int (length results))))
        else rnd (11 - rnd (of_int (sum_list results + int (count_list results 0) * 10) / of_int (int (length results))))) \<and>
     final_color g = (if final_score g \<ge> 9 then ''green'' else if final_score g < 6 then ''red'' else ''white'')"
  by (simp add: end_game_def Let_def)

lemma sum_list_bounds:
  "\<forall>r \<in> set results. 0 \<le> r \<and> r \<le> (5::int) \<Longrightarrow>
   int (length results) - int (count_list results 0) \<le> sum_list results \<and>
   sum_list results \<le> 5 * (int (length results) - int (count_list results 0))"
  by (induction results) auto

lemma avg_bounds:
  assumes "results \<noteq> []" and "\<forall>r \<in> set results. 0 \<le> r \<and> r \<le> (5::int)"
  shows "1 \<le> (of_int (sum_list results + int (count_list results 0) * 10) / of_int (int (length results)) :: real)"
    and "(of_int (sum_list results + int (count_list results 0) * 10) / of_int (int (length results)) :: real) \<le> 10"
    and "count_list results 0 = 0 \<Longrightarrow>
      (of_int (sum_list results + int (count_list results 0) * 10) / of_int (int (length results)) :: real) \<le> 5"
proof -
  let ?n = "int (length results)"
  let ?u = "int (count_list results 0)"
  let ?S = "sum_list results"
  have n: "0 < ?n" using assms(1) by simp
  have u: "?u \<le> ?n" by (simp add: count_le_length)
  from sum_list_bounds[OF assms(2)] have S: "?n - ?u \<le> ?S" "?S \<le> 5 * (?n - ?u)" by simp_all
  have lo: "?n \<le> ?S + ?u * 10" using S(1) by simp
  have hi: "?S + ?u * 10 \<le> 10 * ?n" using S(2) u by simp
  have rn: "(0::real) < of_int ?n" using n by simp
  have "(of_int ?n :: real) \<le> of_int (?S + ?u * 10)" using lo by (simp only: of_int_le_iff)
  then show "1 \<le> (of_int (?S + ?u * 10) / of_int ?n :: real)"
    using rn by (simp add: le_divide_eq)
  have "(of_int (?S + ?u * 10) :: real) \<le> of_int (10 * ?n)" using hi by (simp only: of_int_le_iff)
  then show "(of_int (?S + ?u * 10) / of_int ?n :: real) \<le> 10"
    using rn by (simp add: divide_le_eq)
  assume z: "count_list results 0 = 0"
  with S(2) have "?S + ?u * 10 \<le> 5 * ?n" by simp
  then have "(of_int (?S + ?u * 10) :: real) \<le> of_int (5 * ?n)" by (simp only: of_int_le_iff)
  then show "(of_int (?S + ?u * 10) / of_int ?n :: real) \<le> 5"
    using rn by (simp add: divide_le_eq)
qed

subsection \<open>Evaluation\<close>

lemmas string_eval = lit_def casefold_def strip_def latin1_def latin1_casefold_def latin1_isspace_def

lemmas run_eval = run_single_question_def run_loop.simps read_answer.simps emit_def ATTEMPTS_def

lemma latin1_tables_latin1: "latin1_tables latin1"
  by (simp add: latin1_tables_def latin1_def)

lemma latin1_tables_casefold_char:
  "latin1_tables U \<Longrightarrow> c < 256 \<Longrightarrow> casefold_char U c = latin1_casefold c"
  by (simp add: latin1_tables_def)

lemma latin1_tables_isspace:
  "latin1_tables U \<Longrightarrow> c < 256 \<Longrightarrow> isspace U c = latin1_isspace c"
  by (simp add: latin1_tables_def)

subsection \<open>Latin-1 text\<close>

text \<open>
  On questions and input in Latin-1, every database with the Latin-1 entries gives the
  run that \<open>latin1\<close> gives: the events and the result are the same.
\<close>

lemma casefold_latin1:
  "latin1_tables U \<Longrightarrow> in_latin1 s \<Longrightarrow> casefold U s = casefold latin1 s"
  by (simp add: casefold_def in_latin1_def latin1_def latin1_tables_casefold_char cong: map_cong)

lemma dropWhile_latin1:
  "latin1_tables U \<Longrightarrow> in_latin1 s \<Longrightarrow> dropWhile (isspace U) s = dropWhile (isspace latin1) s"
  by (induction s) (simp_all add: in_latin1_def latin1_def latin1_tables_isspace)

lemma in_latin1_dropWhile: "in_latin1 s \<Longrightarrow> in_latin1 (dropWhile P s)"
  by (auto simp add: in_latin1_def dest: set_dropWhileD)

lemma in_latin1_rev: "in_latin1 (rev s) = in_latin1 s"
  by (simp add: in_latin1_def)

lemma strip_latin1:
  assumes "latin1_tables U" and "in_latin1 s"
  shows "strip U s = strip latin1 s"
proof -
  have "in_latin1 (rev (dropWhile (isspace latin1) s))"
    using assms(2) by (simp add: in_latin1_rev in_latin1_dropWhile)
  then show ?thesis
    by (simp add: strip_def dropWhile_latin1[OF assms] dropWhile_latin1[OF assms(1)])
qed

lemma in_latin1_strip: "in_latin1 s \<Longrightarrow> in_latin1 (strip U s)"
  by (simp add: strip_def in_latin1_rev in_latin1_dropWhile)

lemma answer_latin1:
  "latin1_tables U \<Longrightarrow> in_latin1 s \<Longrightarrow> casefold U (strip U s) = casefold latin1 (strip latin1 s)"
  by (simp add: strip_latin1 casefold_latin1 in_latin1_strip)

lemma right_answer_latin1:
  "latin1_tables U \<Longrightarrow> \<forall>a \<in> set answers. in_latin1 a \<Longrightarrow>
   right_answer U given_answer answers = right_answer latin1 given_answer answers"
  by (induction answers) (simp_all add: casefold_latin1)

lemma kind_of_latin1:
  "latin1_tables U \<Longrightarrow> in_latin1 line \<Longrightarrow> \<forall>a \<in> set (q_answer q). in_latin1 a \<Longrightarrow>
   kind_of U q line = kind_of latin1 q line"
  by (simp add: kind_of_def Let_def answer_latin1 right_answer_latin1)

lemma body_latin1:
  assumes "latin1_tables U" and "\<forall>a \<in> set (q_answer q). in_latin1 a"
  shows "\<forall>line \<in> set ins. in_latin1 line \<Longrightarrow>
    after_read U q q_num attempt clue_used (read_answer U attempt ins) =
    after_read latin1 q q_num attempt clue_used (read_answer latin1 attempt ins)"
proof (induction ins arbitrary: attempt clue_used)
  case Nil
  show ?case by (simp add: read_answer.simps after_read_Inl)
next
  case (Cons line ins)
  then have l: "in_latin1 line" and rest: "\<forall>line \<in> set ins. in_latin1 line" by simp_all
  have k: "kind_of U q line = kind_of latin1 q line"
    using assms l by (simp add: kind_of_latin1)
  have loop: "run_loop U q q_num a c ins = run_loop latin1 q q_num a c ins" for a c
  proof (cases "a < ATTEMPTS")
    case True
    then show ?thesis by (simp add: run_loop_unfold Cons.IH[OF rest])
  next
    case False
    then show ?thesis by (simp add: run_loop_exhausted)
  qed
  show ?case
  proof (cases "kind_of U q line")
    case Blank
    with k have "kind_of latin1 q line = Blank" by simp
    with Blank show ?thesis by (simp add: body_Blank Cons.IH[OF rest])
  next
    case Quit
    with k have "kind_of latin1 q line = Quit" by simp
    with Quit show ?thesis by (simp add: body_Quit)
  next
    case Hint
    with k have "kind_of latin1 q line = Hint" by simp
    with Hint show ?thesis by (simp add: body_Hint loop)
  next
    case Correct
    with k have "kind_of latin1 q line = Correct" by simp
    with Correct show ?thesis by (simp add: body_Correct)
  next
    case Wrong
    with k have "kind_of latin1 q line = Wrong" by simp
    with Wrong show ?thesis by (simp add: body_Wrong loop)
  qed
qed

lemma run_loop_latin1:
  assumes "latin1_tables U" and "\<forall>a \<in> set (q_answer q). in_latin1 a"
    and "\<forall>line \<in> set ins. in_latin1 line"
  shows "run_loop U q q_num attempt clue_used ins = run_loop latin1 q q_num attempt clue_used ins"
proof (cases "attempt < ATTEMPTS")
  case True
  then show ?thesis by (simp add: run_loop_unfold body_latin1[OF assms])
next
  case False
  then show ?thesis by (simp add: run_loop_exhausted)
qed

lemma ask_all_latin1:
  assumes "latin1_tables U"
  shows "\<forall>q \<in> set qs. \<forall>a \<in> set (q_answer q). in_latin1 a \<Longrightarrow> \<forall>line \<in> set ins. in_latin1 line \<Longrightarrow>
    ask_all U qs i results ins = ask_all latin1 qs i results ins"
proof (induction qs arbitrary: i results ins)
  case Nil
  show ?case by simp
next
  case (Cons q qs)
  then have q: "\<forall>a \<in> set (q_answer q). in_latin1 a"
    and qs: "\<forall>q \<in> set qs. \<forall>a \<in> set (q_answer q). in_latin1 a" by simp_all
  have rq: "run_single_question U q (i + 1) ins = run_single_question latin1 q (i + 1) ins"
    by (simp add: run_single_question_def run_loop_latin1[OF assms q Cons.prems(2)])
  obtain out res where o: "run_single_question latin1 q (i + 1) ins = (out, res)"
    by (cases "run_single_question latin1 q (i + 1) ins")
  show ?case
  proof (cases res)
    case (Inl e)
    with rq o show ?thesis by simp
  next
    case (Inr p)
    obtain r rest where p: "p = (r, rest)" by (cases p)
    from o Inr p have "snd (run_loop latin1 q (i + 1) 0 False ins) = Inr (r, rest)"
      by (simp add: run_single_question_def)
    from run_loop_trace[OF this] obtain used where "ins = used @ rest" by (auto simp add: ATTEMPTS_def)
    with Cons.prems(2) have "\<forall>line \<in> set rest. in_latin1 line" by auto
    from Cons.IH[OF qs this] rq o Inr p show ?thesis by simp
  qed
qed

lemma main_latin1:
  "latin1_tables U \<Longrightarrow> \<forall>q \<in> set qs. \<forall>a \<in> set (q_answer q). in_latin1 a \<Longrightarrow>
   \<forall>line \<in> set ins. in_latin1 line \<Longrightarrow> main U rnd qs ins = main latin1 rnd qs ins"
  by (simp add: main_def ask_all_latin1)

section \<open>The claims\<close>

text \<open>
  The general theorems hold for every Unicode database \<open>U\<close>. The examples are computed
  with \<open>latin1\<close> on Latin-1 text; by \<open>run_loop_latin1\<close> and \<open>main_latin1\<close> every database
  with the Latin-1 entries, as Python's has them, gives the same runs there.
\<close>

subsection \<open>C1: a hint on the last attempt\<close>

text \<open>
  C1 as stated says that a hint request never ends the session, so that
  \<open>run_single_question\<close> returns only after \<open>ATTEMPTS\<close> wrong answers that are not hint
  requests, or after a right answer. The code counts the hint as an attempt and then tests
  the loop condition: after four wrong answers and a hint request the function returns 0,
  with four wrong answers only and no right one.
\<close>

theorem hint_on_last_attempt_returns_0:
  "snd (run_single_question latin1
     \<lparr>q_question = lit ''Capital of France?'', q_answer = [lit ''Paris''], q_hint = lit ''On the Seine''\<rparr> 1
     [lit ''london'', lit ''rome'', lit ''berlin'', lit ''madrid'', lit ''hint'']) = Inr (0, []) \<and>
   count_kind latin1
     \<lparr>q_question = lit ''Capital of France?'', q_answer = [lit ''Paris''], q_hint = lit ''On the Seine''\<rparr>
     Wrong [lit ''london'', lit ''rome'', lit ''berlin'', lit ''madrid'', lit ''hint''] = 4 \<and>
   4 < ATTEMPTS \<and>
   count_kind latin1
     \<lparr>q_question = lit ''Capital of France?'', q_answer = [lit ''Paris''], q_hint = lit ''On the Seine''\<rparr>
     Correct [lit ''london'', lit ''rome'', lit ''berlin'', lit ''madrid'', lit ''hint''] = 0"
  by (simp add: run_eval count_kind_def kind_of_def string_eval)

text \<open>
  C1, amended: a hint request consumes one attempt; the session goes on after it when
  attempts are left and returns 0 when it was the last one. \<open>run_single_question\<close>
  returns 0 only after exactly \<open>ATTEMPTS\<close> attempts, wrong answers and hint requests
  counted together, none of them a right answer; any other value it returns is one more
  than the number of wrong answers and hint requests among the lines it read, which hold
  exactly one right answer.
\<close>

theorem returns_0_after_all_attempts:
  "(snd (run_single_question U q q_num ins) = Inr (r, rest) \<longrightarrow>
      (\<exists>used. ins = used @ rest \<and>
         (if r = 0
          then count_kind U q Wrong used + count_kind U q Hint used = ATTEMPTS \<and>
               count_kind U q Correct used = 0
          else count_kind U q Wrong used + count_kind U q Hint used + 1 = r \<and>
               count_kind U q Correct used = 1))) \<and>
   (kind_of U q line = Hint \<and> attempt < ATTEMPTS \<longrightarrow>
      snd (run_loop U q q_num attempt clue_used (line # lines)) =
        (if attempt + 1 < ATTEMPTS then snd (run_loop U q q_num (attempt + 1) True lines)
         else Inr (0, lines)))"
proof (intro conjI impI)
  assume "snd (run_single_question U q q_num ins) = Inr (r, rest)"
  then have "snd (run_loop U q q_num 0 False ins) = Inr (r, rest)"
    by (simp add: run_single_question_def)
  from run_loop_trace[OF this] obtain used where "ins = used @ rest"
    "if r = 0
     then 0 + count_kind U q Hint used + count_kind U q Wrong used = ATTEMPTS \<and>
          count_kind U q Correct used = 0
     else 0 + count_kind U q Hint used + count_kind U q Wrong used + 1 = r \<and>
          count_kind U q Correct used = 1"
    by (auto simp add: ATTEMPTS_def)
  then have "ins = used @ rest \<and>
         (if r = 0
          then count_kind U q Wrong used + count_kind U q Hint used = ATTEMPTS \<and>
               count_kind U q Correct used = 0
          else count_kind U q Wrong used + count_kind U q Hint used + 1 = r \<and>
               count_kind U q Correct used = 1)"
    by (auto split: if_splits)
  then show "\<exists>used. ins = used @ rest \<and>
         (if r = 0
          then count_kind U q Wrong used + count_kind U q Hint used = ATTEMPTS \<and>
               count_kind U q Correct used = 0
          else count_kind U q Wrong used + count_kind U q Hint used + 1 = r \<and>
               count_kind U q Correct used = 1)"
    by blast
next
  assume h: "kind_of U q line = Hint \<and> attempt < ATTEMPTS"
  then have "snd (run_loop U q q_num attempt clue_used (line # lines)) =
      snd (run_loop U q q_num (attempt + 1) True lines)"
    by (simp add: snd_run_loop_kind)
  then show "snd (run_loop U q q_num attempt clue_used (line # lines)) =
        (if attempt + 1 < ATTEMPTS then snd (run_loop U q q_num (attempt + 1) True lines)
         else Inr (0, lines))"
    by (simp add: snd_run_loop_exhausted)
qed

theorem returns_0_after_all_attempts_witness:
  "snd (run_single_question latin1
     \<lparr>q_question = lit ''Capital of France?'', q_answer = [lit ''Paris''], q_hint = lit ''On the Seine''\<rparr> 1
     [lit ''london'', lit ''hint'', lit ''berlin'', lit ''madrid'', lit ''rome'', lit ''paris'']) =
     Inr (0, [lit ''paris'']) \<and>
   (\<exists>used. [lit ''london'', lit ''hint'', lit ''berlin'', lit ''madrid'', lit ''rome'', lit ''paris''] =
        used @ [lit ''paris''] \<and>
      count_kind latin1
        \<lparr>q_question = lit ''Capital of France?'', q_answer = [lit ''Paris''], q_hint = lit ''On the Seine''\<rparr>
        Wrong used +
      count_kind latin1
        \<lparr>q_question = lit ''Capital of France?'', q_answer = [lit ''Paris''], q_hint = lit ''On the Seine''\<rparr>
        Hint used = ATTEMPTS) \<and>
   kind_of latin1
     \<lparr>q_question = lit ''Capital of France?'', q_answer = [lit ''Paris''], q_hint = lit ''On the Seine''\<rparr>
     (lit ''hint'') = Hint \<and>
   4 < ATTEMPTS \<and>
   snd (run_loop latin1
     \<lparr>q_question = lit ''Capital of France?'', q_answer = [lit ''Paris''], q_hint = lit ''On the Seine''\<rparr>
     1 4 False [lit ''hint'', lit ''paris'']) = Inr (0, [lit ''paris''])"
proof -
  let ?q = "\<lparr>q_question = lit ''Capital of France?'', q_answer = [lit ''Paris''], q_hint = lit ''On the Seine''\<rparr>"
  have run: "snd (run_single_question latin1 ?q 1
     [lit ''london'', lit ''hint'', lit ''berlin'', lit ''madrid'', lit ''rome'', lit ''paris'']) =
     Inr (0, [lit ''paris''])"
    by (simp add: run_eval string_eval)
  have hint: "kind_of latin1 ?q (lit ''hint'') = Hint \<and> 4 < ATTEMPTS"
    by (simp add: kind_of_def ATTEMPTS_def string_eval)
  have last: "\<not> (4 + 1 < ATTEMPTS)" by (simp add: ATTEMPTS_def)
  from returns_0_after_all_attempts
    [where U = latin1 and q = ?q and q_num = 1 and r = 0 and rest = "[lit ''paris'']"
       and ins = "[lit ''london'', lit ''hint'', lit ''berlin'', lit ''madrid'', lit ''rome'', lit ''paris'']"
       and line = "lit ''hint''" and attempt = 4 and clue_used = False and lines = "[lit ''paris'']"]
    run hint last
  show ?thesis by auto
qed

subsection \<open>C2: the score formula\<close>

text \<open>
  C2: for a non-empty list of outcomes, \<open>end_game\<close> computes the average as the sum of the
  outcomes plus ten times the number of zero outcomes, divided by the number of outcomes,
  and the score as 10 minus the average when some outcome is 0 and 11 minus the average
  otherwise, each operation rounded as Python's floats round it. Under every rounding
  that leaves small integers alone, the outcomes \<open>[3]\<close> score 8, \<open>[0, 2]\<close> score 4 and
  \<open>[1, 1, 1]\<close> score 10.
\<close>

theorem score_formula:
  "(results \<noteq> [] \<longrightarrow>
      (\<exists>g. end_game rnd results = Inr g \<and>
         final_score g =
           (let averageAttempts =
                  rnd ((real_of_int (sum_list results) +
                        10 * real (length (filter (\<lambda>r. r = 0) results))) / real (length results))
            in if 0 \<in> set results then rnd (10 - averageAttempts)
               else rnd (11 - averageAttempts)))) \<and>
   (float_rounding rnd \<longrightarrow>
      (\<exists>g. end_game rnd [3] = Inr g \<and> final_score g = 8) \<and>
      (\<exists>g. end_game rnd [0, 2] = Inr g \<and> final_score g = 4) \<and>
      (\<exists>g. end_game rnd [1, 1, 1] = Inr g \<and> final_score g = 10))"
proof (intro conjI impI)
  assume ne: "results \<noteq> []"
  have c: "(count_list results 0 \<noteq> 0) = (0 \<in> set results)" by (simp add: count_list_0_iff)
  have a: "(of_int (sum_list results + int (count_list results 0) * 10) / of_int (int (length results)) :: real) =
    (real_of_int (sum_list results) + 10 * real (length (filter (\<lambda>r. r = 0) results))) / real (length results)"
    by (simp add: count_list_filter)
  from end_game_score[OF ne, of rnd] show "\<exists>g. end_game rnd results = Inr g \<and>
         final_score g =
           (let averageAttempts =
                  rnd ((real_of_int (sum_list results) +
                        10 * real (length (filter (\<lambda>r. r = 0) results))) / real (length results))
            in if 0 \<in> set results then rnd (10 - averageAttempts)
               else rnd (11 - averageAttempts))"
    unfolding c a Let_def by blast
next
  assume f: "float_rounding rnd"
  have r: "rnd 3 = 3" "rnd 8 = 8" "rnd 6 = 6" "rnd 4 = 4" "rnd 1 = 1" "rnd 10 = 10"
    using float_rounding_int[OF f, of 3] float_rounding_int[OF f, of 8]
      float_rounding_int[OF f, of 6] float_rounding_int[OF f, of 4]
      float_rounding_int[OF f, of 1] float_rounding_int[OF f, of 10]
    by simp_all
  show "\<exists>g. end_game rnd [3] = Inr g \<and> final_score g = 8"
    by (simp add: end_game_def r)
  show "\<exists>g. end_game rnd [0, 2] = Inr g \<and> final_score g = 4"
    by (simp add: end_game_def r)
  show "\<exists>g. end_game rnd [1, 1, 1] = Inr g \<and> final_score g = 10"
    by (simp add: end_game_def r)
qed

text \<open>The formula at the outcomes \<open>[2, 0, 5, 1]\<close> in exact arithmetic, and the second example.\<close>

theorem score_formula_witness:
  "[2, 0, 5, 1] \<noteq> ([] :: int list) \<and> float_rounding (\<lambda>x. x) \<and>
   (\<exists>g. end_game (\<lambda>x. x) [2, 0, 5, 1] = Inr g \<and> final_score g = 10 - (8 + 10 * 1) / 4) \<and>
   (\<exists>g. end_game (\<lambda>x. x) [0, 2] = Inr g \<and> final_score g = 4)"
proof -
  have ne: "[2, 0, 5, 1] \<noteq> ([] :: int list)" by simp
  note sf = score_formula[of "[2, 0, 5, 1]" "\<lambda>x. x"]
  from sf[THEN conjunct1, rule_format, OF ne]
  have 1: "\<exists>g. end_game (\<lambda>x. x) [2, 0, 5, 1] = Inr g \<and> final_score g = 10 - (8 + 10 * 1) / 4"
    by (simp add: Let_def)
  from sf[THEN conjunct2, rule_format, OF float_rounding_exact]
  have 2: "\<exists>g. end_game (\<lambda>x. x) [0, 2] = Inr g \<and> final_score g = 4"
    by blast
  from ne float_rounding_exact 1 2 show ?thesis by (intro conjI)
qed

subsection \<open>C3: the correctness check is a substring test\<close>

text \<open>
  C3: \<open>right_answer\<close> holds exactly when the case-folded form of some accepted answer is a
  contiguous part of the given answer. The given answer that \<open>run_single_question\<close> passes
  is the stripped and case-folded line, so that both sides of the comparison are
  case-folded: at every state of the loop with a counter that is not negative and an
  attempt left, a line that is not empty and not a keyword after stripping and case
  folding is answered by returning the counter plus one exactly when the case-folded form
  of some accepted answer is a contiguous part of the stripped and case-folded line. For every database with Python's Latin-1 entries
  the accepted answer \<open>paris\<close> matches the input \<open>i think it's paris, yes\<close>, and the line
  \<open>I think it's PARIS, yes\<close> answers the question with the accepted answer \<open>Paris\<close> at the
  first attempt.
\<close>

theorem substring_check:
  "(right_answer U given_answer answers \<longleftrightarrow>
      (\<exists>a \<in> set answers. \<exists>pre suf. given_answer = pre @ casefold U a @ suf)) \<and>
   (0 \<le> attempt \<and> attempt < ATTEMPTS \<and> casefold U (strip U line) \<noteq> [] \<and>
    casefold U (strip U line) \<notin> set [lit ''quit'', lit ''exit''] \<and>
    casefold U (strip U line) \<notin> set [lit ''help'', lit ''clue'', lit ''hint''] \<longrightarrow>
      (snd (run_loop U q q_num attempt clue_used (line # ins)) = Inr (attempt + 1, ins) \<longleftrightarrow>
       (\<exists>a \<in> set (q_answer q). \<exists>pre suf. casefold U (strip U line) = pre @ casefold U a @ suf))) \<and>
   (latin1_tables U \<longrightarrow>
      right_answer U (lit ''i think it's paris, yes'') [lit ''paris''] \<and>
      snd (run_single_question U
        \<lparr>q_question = lit ''Capital of France?'', q_answer = [lit ''Paris''], q_hint = lit ''On the Seine''\<rparr>
        1 [lit ''I think it's PARIS, yes'']) = Inr (1, []))"
proof (intro conjI impI)
  show "right_answer U given_answer answers \<longleftrightarrow>
      (\<exists>a \<in> set answers. \<exists>pre suf. given_answer = pre @ casefold U a @ suf)"
    by (simp add: right_answer_iff contains_iff)
next
  assume h: "0 \<le> attempt \<and> attempt < ATTEMPTS \<and> casefold U (strip U line) \<noteq> [] \<and>
    casefold U (strip U line) \<notin> set [lit ''quit'', lit ''exit''] \<and>
    casefold U (strip U line) \<notin> set [lit ''help'', lit ''clue'', lit ''hint'']"
  then have a: "attempt < ATTEMPTS" and a0: "0 \<le> attempt" by simp_all
  have ra: "right_answer U (casefold U (strip U line)) (q_answer q) \<longleftrightarrow>
      (\<exists>a \<in> set (q_answer q). \<exists>pre suf. casefold U (strip U line) = pre @ casefold U a @ suf)"
    by (simp add: right_answer_iff contains_iff)
  show "snd (run_loop U q q_num attempt clue_used (line # ins)) = Inr (attempt + 1, ins) \<longleftrightarrow>
       (\<exists>a \<in> set (q_answer q). \<exists>pre suf. casefold U (strip U line) = pre @ casefold U a @ suf)"
  proof (cases "right_answer U (casefold U (strip U line)) (q_answer q)")
    case True
    with h have "kind_of U q line = Correct" by (simp add: kind_of_def Let_def)
    with True ra show ?thesis by (simp add: snd_run_loop_kind[OF a])
  next
    case False
    with h have w: "kind_of U q line = Wrong" by (simp add: kind_of_def Let_def)
    have "snd (run_loop U q q_num (attempt + 1) clue_used ins) \<noteq> Inr (attempt + 1, ins)"
    proof
      assume "snd (run_loop U q q_num (attempt + 1) clue_used ins) = Inr (attempt + 1, ins)"
      from run_loop_range[OF this] a0 show False by simp
    qed
    with False ra w show ?thesis by (simp add: snd_run_loop_kind[OF a])
  qed
next
  assume l: "latin1_tables U"
  show "right_answer U (lit ''i think it's paris, yes'') [lit ''paris'']"
    by (simp add: lit_def casefold_def latin1_tables_casefold_char[OF l] latin1_casefold_def)
next
  assume l: "latin1_tables U"
  show "snd (run_single_question U
        \<lparr>q_question = lit ''Capital of France?'', q_answer = [lit ''Paris''], q_hint = lit ''On the Seine''\<rparr>
        1 [lit ''I think it's PARIS, yes'']) = Inr (1, [])"
    by (simp add: run_eval lit_def casefold_def strip_def latin1_tables_casefold_char[OF l]
        latin1_tables_isspace[OF l] latin1_casefold_def latin1_isspace_def)
qed

text \<open>
  A line in capitals with spaces around it matches \<open>Paris\<close>; the sharp s folds to \<open>ss\<close>,
  so that the line of a sharp s alone matches the accepted answer \<open>s\<close>; a proper part of
  the answer does not match.
\<close>

theorem substring_check_witness:
  "latin1_tables latin1 \<and>
   right_answer latin1 (casefold latin1 (strip latin1 (0xA0 # lit ''  Surely PARIS!  '')))
     [lit ''Rome'', lit ''Paris''] \<and>
   casefold latin1 [0xDF] = lit ''ss'' \<and>
   right_answer latin1 (casefold latin1 (strip latin1 [0xDF])) [lit ''s''] \<and>
   \<not> right_answer latin1 (lit ''pari'') [lit ''paris''] \<and>
   right_answer latin1 (lit ''i think it's paris, yes'') [lit ''paris'']"
proof -
  note sc = substring_check[where U = latin1 and given_answer = "lit ''i think it's paris, yes''"
      and answers = "[lit ''paris'']"]
  from sc[THEN conjunct2, THEN conjunct2, THEN mp, OF latin1_tables_latin1, THEN conjunct1]
  have p: "right_answer latin1 (lit ''i think it's paris, yes'') [lit ''paris'']" .
  have 1: "right_answer latin1 (casefold latin1 (strip latin1 (0xA0 # lit ''  Surely PARIS!  '')))
     [lit ''Rome'', lit ''Paris'']"
    by (simp add: string_eval)
  have 2: "casefold latin1 [0xDF] = lit ''ss''" by (simp add: string_eval)
  have 3: "right_answer latin1 (casefold latin1 (strip latin1 [0xDF])) [lit ''s'']"
    by (simp add: string_eval)
  have 4: "\<not> right_answer latin1 (lit ''pari'') [lit ''paris'']" by (simp add: string_eval)
  from latin1_tables_latin1 1 2 3 4 p show ?thesis by (intro conjI)
qed

subsection \<open>C4: the range of the outcome\<close>

text \<open>
  C4: whenever \<open>run_single_question\<close> returns, on any question and any input, the value
  is 0 or lies between 1 and \<open>ATTEMPTS = 5\<close>: between 1 and 5 when the lines it read held
  a right answer, and 0 when they held five wrong answers and hint requests and no right
  answer.
\<close>

theorem outcome_in_range:
  "snd (run_single_question U q q_num ins) = Inr (r, rest) \<Longrightarrow>
   ATTEMPTS = 5 \<and>
   (\<exists>used. ins = used @ rest \<and>
      (r = 0 \<and> count_kind U q Correct used = 0 \<and>
         count_kind U q Wrong used + count_kind U q Hint used = 5 \<or>
       1 \<le> r \<and> r \<le> 5 \<and> count_kind U q Correct used = 1))"
proof -
  assume ret: "snd (run_single_question U q q_num ins) = Inr (r, rest)"
  then have run: "snd (run_loop U q q_num 0 False ins) = Inr (r, rest)"
    by (simp add: run_single_question_def)
  have A: "ATTEMPTS = 5" by (simp add: ATTEMPTS_def)
  from run_loop_range[OF run] have rng: "r = 0 \<or> (1 \<le> r \<and> r \<le> 5)" by (auto simp add: A)
  from run_loop_trace[OF run] obtain used where u: "ins = used @ rest"
    "if r = 0
     then 0 + count_kind U q Hint used + count_kind U q Wrong used = ATTEMPTS \<and>
          count_kind U q Correct used = 0
     else 0 + count_kind U q Hint used + count_kind U q Wrong used + 1 = r \<and>
          count_kind U q Correct used = 1"
    by (auto simp add: A)
  have "ins = used @ rest \<and>
      (r = 0 \<and> count_kind U q Correct used = 0 \<and>
         count_kind U q Wrong used + count_kind U q Hint used = 5 \<or>
       1 \<le> r \<and> r \<le> 5 \<and> count_kind U q Correct used = 1)"
    using u rng by (auto simp add: A split: if_splits)
  then show ?thesis using A by blast
qed

text \<open>A session of a wrong answer, an empty line, a hint request and a right answer returns 3.\<close>

theorem outcome_in_range_witness:
  "snd (run_single_question latin1
     \<lparr>q_question = lit ''Largest planet?'', q_answer = [lit ''Jupiter''], q_hint = lit ''A gas giant''\<rparr> 3
     [lit ''mars'', [], lit ''clue'', lit ''It is JUPITER'', lit ''next'']) = Inr (3, [lit ''next'']) \<and>
   ATTEMPTS = 5 \<and>
   (\<exists>used. [lit ''mars'', [], lit ''clue'', lit ''It is JUPITER'', lit ''next''] = used @ [lit ''next''] \<and>
      count_kind latin1
        \<lparr>q_question = lit ''Largest planet?'', q_answer = [lit ''Jupiter''], q_hint = lit ''A gas giant''\<rparr>
        Correct used = 1)"
proof -
  let ?q = "\<lparr>q_question = lit ''Largest planet?'', q_answer = [lit ''Jupiter''], q_hint = lit ''A gas giant''\<rparr>"
  have run: "snd (run_single_question latin1 ?q 3
     [lit ''mars'', [], lit ''clue'', lit ''It is JUPITER'', lit ''next'']) = Inr (3, [lit ''next''])"
    by (simp add: run_eval string_eval)
  from outcome_in_range[OF run] run show ?thesis by auto
qed

subsection \<open>C5: quitting\<close>

text \<open>
  C5: a line that is \<open>quit\<close> or \<open>exit\<close> after stripping and case folding, typed at any
  prompt, makes the program print \<open>Quitting game\<close> and raise \<open>SystemExit\<close>, whatever input
  follows: out of the loop of \<open>run_single_question\<close> at any state with an attempt left,
  out of \<open>run_single_question\<close>, out of the loop over the questions and out of \<open>main\<close>.
  Nothing else is printed after the prompt: no outcome is returned, no further question
  is asked and \<open>end_game\<close> is not reached. The program stands at a prompt after the lines
  \<open>pre\<close> exactly when its run on \<open>pre\<close> alone ends in \<open>EOFError\<close>.
\<close>

theorem quit_aborts_everything:
  assumes "casefold U (strip U line) \<in> set [lit ''quit'', lit ''exit'']"
  shows "(attempt < ATTEMPTS \<longrightarrow>
       run_loop U q q_num attempt clue_used (line # ins) =
         (Print_question q_num (q_question q) # (if \<not> clue_used then [Print_help_offer] else []) @
          [Prompt (attempt + 1), Print_quitting], Inl SystemExit)) \<and>
    (snd (run_single_question U q q_num pre) = Inl EOFError \<longrightarrow>
       run_single_question U q q_num (pre @ line # ins) =
         (fst (run_single_question U q q_num pre) @ [Print_quitting], Inl SystemExit)) \<and>
    (snd (ask_all U qs i results pre) = Inl EOFError \<longrightarrow>
       ask_all U qs i results (pre @ line # ins) =
         (fst (ask_all U qs i results pre) @ [Print_quitting], Inl SystemExit)) \<and>
    (snd (main U rnd qs pre) = Inl EOFError \<longrightarrow>
       main U rnd qs (pre @ line # ins) =
         (fst (main U rnd qs pre) @ [Print_quitting], Inl SystemExit))"
proof (intro conjI impI)
  have quit: "kind_of U q line = Quit" using assms by (simp only: kind_of_Quit_iff)
  {
    assume "attempt < ATTEMPTS"
    from run_loop_Quit[OF this quit]
    show "run_loop U q q_num attempt clue_used (line # ins) =
         (Print_question q_num (q_question q) # (if \<not> clue_used then [Print_help_offer] else []) @
          [Prompt (attempt + 1), Print_quitting], Inl SystemExit)"
      by (simp add: header_def)
  }
  {
    assume "snd (run_single_question U q q_num pre) = Inl EOFError"
    then have "snd (run_loop U q q_num 0 False pre) = Inl EOFError"
      by (simp add: run_single_question_def)
    from run_loop_at_prompt_quit[OF this quit]
    show "run_single_question U q q_num (pre @ line # ins) =
         (fst (run_single_question U q q_num pre) @ [Print_quitting], Inl SystemExit)"
      by (simp add: run_single_question_def)
  }
next
  assume "snd (ask_all U qs i results pre) = Inl EOFError"
  then show "ask_all U qs i results (pre @ line # ins) =
         (fst (ask_all U qs i results pre) @ [Print_quitting], Inl SystemExit)"
    using assms by (rule ask_all_at_prompt_quit)
next
  assume m: "snd (main U rnd qs pre) = Inl EOFError"
  obtain out res where aa: "ask_all U qs 0 [] pre = (out, res)" by (cases "ask_all U qs 0 [] pre")
  have "res = Inl EOFError"
  proof (cases res)
    case (Inl e)
    with m aa show ?thesis by (simp add: main_def emit_def)
  next
    case (Inr p)
    obtain rs rest where "p = (rs, rest)" by (cases p)
    with Inr m aa have "end_game rnd rs = Inl EOFError" by (simp add: main_def emit_def)
    then show ?thesis by (simp add: end_game_def Let_def split: if_splits)
  qed
  with aa have "snd (ask_all U qs 0 [] pre) = Inl EOFError" by simp
  from ask_all_at_prompt_quit[OF this assms, of ins] aa \<open>res = Inl EOFError\<close>
  show "main U rnd qs (pre @ line # ins) =
         (fst (main U rnd qs pre) @ [Print_quitting], Inl SystemExit)"
    by (simp add: main_def emit_def)
qed

text \<open>
  Quitting in the middle of the second question, after a hint, with \<open>EXIT\<close> between a
  no-break space and a next-line character.
\<close>

theorem quit_aborts_everything_witness:
  "casefold latin1 (strip latin1 (0xA0 # lit ''EXIT '' @ [0x85])) \<in> set [lit ''quit'', lit ''exit''] \<and>
   main latin1 (\<lambda>x. x)
     [\<lparr>q_question = lit ''Capital of France?'', q_answer = [lit ''Paris''], q_hint = lit ''On the Seine''\<rparr>,
      \<lparr>q_question = lit ''Capital of Italy?'', q_answer = [lit ''Rome''], q_hint = lit ''Seven hills''\<rparr>]
     [lit ''paris'', lit ''hint''] =
     ([Clear_screen, Print_welcome, Print_instructions 2, Sound ''opening.mp3'' False,
       Print_question 1 (lit ''Capital of France?''), Print_help_offer, Prompt 1,
       Print_right 1, Sound ''short-success.mp3'' True,
       Print_question 2 (lit ''Capital of Italy?''), Print_help_offer, Prompt 1,
       Print_hint (lit ''Seven hills''), Sound ''beep.mp3'' False,
       Print_question 2 (lit ''Capital of Italy?''), Prompt 2], Inl EOFError) \<and>
   main latin1 (\<lambda>x. x)
     [\<lparr>q_question = lit ''Capital of France?'', q_answer = [lit ''Paris''], q_hint = lit ''On the Seine''\<rparr>,
      \<lparr>q_question = lit ''Capital of Italy?'', q_answer = [lit ''Rome''], q_hint = lit ''Seven hills''\<rparr>]
     ([lit ''paris'', lit ''hint''] @ (0xA0 # lit ''EXIT '' @ [0x85]) # [lit ''rome'']) =
     ([Clear_screen, Print_welcome, Print_instructions 2, Sound ''opening.mp3'' False,
       Print_question 1 (lit ''Capital of France?''), Print_help_offer, Prompt 1,
       Print_right 1, Sound ''short-success.mp3'' True,
       Print_question 2 (lit ''Capital of Italy?''), Print_help_offer, Prompt 1,
       Print_hint (lit ''Seven hills''), Sound ''beep.mp3'' False,
       Print_question 2 (lit ''Capital of Italy?''), Prompt 2, Print_quitting], Inl SystemExit)"
proof -
  let ?qs = "[\<lparr>q_question = lit ''Capital of France?'', q_answer = [lit ''Paris''], q_hint = lit ''On the Seine''\<rparr>,
      \<lparr>q_question = lit ''Capital of Italy?'', q_answer = [lit ''Rome''], q_hint = lit ''Seven hills''\<rparr>]"
  let ?out = "[Clear_screen, Print_welcome, Print_instructions 2, Sound ''opening.mp3'' False,
       Print_question 1 (lit ''Capital of France?''), Print_help_offer, Prompt 1,
       Print_right 1, Sound ''short-success.mp3'' True,
       Print_question 2 (lit ''Capital of Italy?''), Print_help_offer, Prompt 1,
       Print_hint (lit ''Seven hills''), Sound ''beep.mp3'' False,
       Print_question 2 (lit ''Capital of Italy?''), Prompt 2]"
  have x: "casefold latin1 (strip latin1 (0xA0 # lit ''EXIT '' @ [0x85])) \<in> set [lit ''quit'', lit ''exit'']"
    by (simp add: string_eval)
  have e: "main latin1 (\<lambda>x. x) ?qs [lit ''paris'', lit ''hint''] = (?out, Inl EOFError)"
    by (simp add: main_def greet_def run_eval string_eval)
  then have s: "snd (main latin1 (\<lambda>x. x) ?qs [lit ''paris'', lit ''hint'']) = Inl EOFError"
    by (simp only: snd_conv)
  note t = quit_aborts_everything[OF x, where rnd = "\<lambda>x. x" and qs = ?qs
      and pre = "[lit ''paris'', lit ''hint'']" and ins = "[lit ''rome'']"
      and attempt = 0 and q = "hd ?qs" and clue_used = False and q_num = 1 and i = 0 and results = "[]"]
  from t[THEN conjunct2, THEN conjunct2, THEN conjunct2, THEN mp, OF s]
  have "main latin1 (\<lambda>x. x) ?qs ([lit ''paris'', lit ''hint''] @ (0xA0 # lit ''EXIT '' @ [0x85]) # [lit ''rome'']) =
     (?out @ [Print_quitting], Inl SystemExit)"
    by (simp only: e fst_conv)
  then have q: "main latin1 (\<lambda>x. x) ?qs ([lit ''paris'', lit ''hint''] @ (0xA0 # lit ''EXIT '' @ [0x85]) # [lit ''rome'']) =
     ([Clear_screen, Print_welcome, Print_instructions 2, Sound ''opening.mp3'' False,
       Print_question 1 (lit ''Capital of France?''), Print_help_offer, Prompt 1,
       Print_right 1, Sound ''short-success.mp3'' True,
       Print_question 2 (lit ''Capital of Italy?''), Print_help_offer, Prompt 1,
       Print_hint (lit ''Seven hills''), Sound ''beep.mp3'' False,
       Print_question 2 (lit ''Capital of Italy?''), Prompt 2, Print_quitting], Inl SystemExit)"
    by (simp only: append.simps)
  from x e q show ?thesis by (intro conjI)
qed

subsection \<open>C6: the colour of the score\<close>

text \<open>
  C6: for a non-empty list of outcomes the score is printed in green (the band ``high'')
  exactly when it is at least 9, in red (``low'') exactly when it is below 6, and in white
  (``mid'') exactly when it is neither.
\<close>

theorem score_band:
  "results \<noteq> [] \<Longrightarrow>
   \<exists>g. end_game rnd results = Inr g \<and>
     (final_color g = ''green'' \<longleftrightarrow> final_score g \<ge> 9) \<and>
     (final_color g = ''red'' \<longleftrightarrow> final_score g < 6) \<and>
     (final_color g = ''white'' \<longleftrightarrow> 6 \<le> final_score g \<and> final_score g < 9)"
proof -
  assume "results \<noteq> []"
  from end_game_score[OF this, of rnd] obtain g where g: "end_game rnd results = Inr g"
    "final_color g = (if final_score g \<ge> 9 then ''green'' else if final_score g < 6 then ''red'' else ''white'')"
    by blast
  have "(final_color g = ''green'' \<longleftrightarrow> final_score g \<ge> 9) \<and>
     (final_color g = ''red'' \<longleftrightarrow> final_score g < 6) \<and>
     (final_color g = ''white'' \<longleftrightarrow> 6 \<le> final_score g \<and> final_score g < 9)"
    unfolding g(2) by auto
  with g(1) show ?thesis by blast
qed

text \<open>The outcomes \<open>[3, 0, 1]\<close> score 16/3, in red.\<close>

theorem score_band_witness:
  "[3, 0, 1] \<noteq> ([] :: int list) \<and>
   (\<exists>g. end_game (\<lambda>x. x) [3, 0, 1] = Inr g \<and> final_score g = 16 / 3 \<and> final_color g = ''red'')"
proof -
  have ne: "[3, 0, 1] \<noteq> ([] :: int list)" by simp
  have e: "\<exists>g. end_game (\<lambda>x. x) [3, 0, 1] = Inr g \<and> final_score g = 16 / 3"
    by (simp add: end_game_def)
  from score_band[OF ne, of "\<lambda>x. x"] e ne show ?thesis by auto
qed

subsection \<open>C7: a hint request costs one attempt and is never a success\<close>

text \<open>
  C7: from every state of the loop in which an attempt is left, a line that is \<open>help\<close>,
  \<open>clue\<close> or \<open>hint\<close> after stripping and case folding, whether or not it would pass
  \<open>right_answer\<close>, makes the loop print the question, the prompt with the counter plus
  one, the notice when the clue was used before, and the hint, and go on from its head
  with the counter one higher and \<open>clue_used\<close> set. When an attempt is still left, the
  next prompt shows the counter plus two. The line itself is never a success: a non-zero
  value returned later is at least two more than the counter was, and at least one further
  line was read for it.
\<close>

theorem hint_costs_one_attempt:
  assumes "casefold U (strip U line) \<in> set [lit ''help'', lit ''clue'', lit ''hint'']"
    and "attempt < ATTEMPTS"
  shows "run_loop U q q_num attempt clue_used (line # ins) =
      emit (Print_question q_num (q_question q) # (if \<not> clue_used then [Print_help_offer] else []) @
            [Prompt (attempt + 1)] @ (if clue_used then [Print_already_asked] else []) @
            [Print_hint (q_hint q), Sound ''beep.mp3'' False])
        (run_loop U q q_num (attempt + 1) True ins) \<and>
    (attempt + 1 < ATTEMPTS \<longrightarrow>
       (\<exists>evs. fst (run_loop U q q_num (attempt + 1) True ins) =
          Print_question q_num (q_question q) # Prompt (attempt + 2) # evs)) \<and>
    (\<forall>r rest. snd (run_loop U q q_num attempt clue_used (line # ins)) = Inr (r, rest) \<longrightarrow>
       r = 0 \<or> (attempt + 2 \<le> r \<and> length rest < length ins))"
proof -
  have hint: "kind_of U q line = Hint" using assms(1) by (simp only: kind_of_Hint_iff)
  have eq: "run_loop U q q_num attempt clue_used (line # ins) =
      emit (Print_question q_num (q_question q) # (if \<not> clue_used then [Print_help_offer] else []) @
            [Prompt (attempt + 1)] @ (if clue_used then [Print_already_asked] else []) @
            [Print_hint (q_hint q), Sound ''beep.mp3'' False])
        (run_loop U q q_num (attempt + 1) True ins)"
    using run_loop_Hint[OF assms(2) hint, of q_num clue_used ins] by (simp add: header_def)
  have nxt: "\<exists>evs. fst (run_loop U q q_num (attempt + 1) True ins) =
          Print_question q_num (q_question q) # Prompt (attempt + 2) # evs"
    if a: "attempt + 1 < ATTEMPTS"
  proof -
    from body_starts_with_prompt[of U q q_num "attempt + 1" True ins] obtain evs where
      "fst (after_read U q q_num (attempt + 1) True (read_answer U (attempt + 1) ins)) =
         Prompt (attempt + 1 + 1) # evs" by blast
    then have "fst (run_loop U q q_num (attempt + 1) True ins) =
          Print_question q_num (q_question q) # Prompt (attempt + 2) # evs"
      by (simp add: run_loop_unfold[OF a] fst_emit header_def)
    then show ?thesis by blast
  qed
  have "r = 0 \<or> (attempt + 2 \<le> r \<and> length rest < length ins)"
    if "snd (run_loop U q q_num attempt clue_used (line # ins)) = Inr (r, rest)" for r rest
  proof -
    from that eq have run: "snd (run_loop U q q_num (attempt + 1) True ins) = Inr (r, rest)"
      by (simp add: snd_emit)
    from run_loop_range[OF run] run_loop_success_consumes[OF run] show ?thesis by auto
  qed
  with eq nxt show ?thesis by blast
qed

text \<open>
  With \<open>hint\<close> itself as the accepted answer, the line \<open>Hint\<close> after a no-break space passes
  \<open>right_answer\<close> and still only moves the prompt from 4 to 5; the next line is the fifth
  attempt.
\<close>

theorem hint_costs_one_attempt_witness:
  "casefold latin1 (strip latin1 (0xA0 # lit ''Hint '')) \<in> set [lit ''help'', lit ''clue'', lit ''hint''] \<and>
   3 < ATTEMPTS \<and>
   right_answer latin1 (casefold latin1 (strip latin1 (0xA0 # lit ''Hint ''))) [lit ''hint''] \<and>
   run_loop latin1 \<lparr>q_question = lit ''What am I?'', q_answer = [lit ''hint''], q_hint = lit ''A clue''\<rparr>
     7 3 False [0xA0 # lit ''Hint '', lit ''a hint''] =
     ([Print_question 7 (lit ''What am I?''), Print_help_offer, Prompt 4,
       Print_hint (lit ''A clue''), Sound ''beep.mp3'' False,
       Print_question 7 (lit ''What am I?''), Prompt 5,
       Print_right 5, Sound ''short-success.mp3'' True], Inr (5, []))"
proof -
  let ?q = "\<lparr>q_question = lit ''What am I?'', q_answer = [lit ''hint''], q_hint = lit ''A clue''\<rparr>"
  have h: "casefold latin1 (strip latin1 (0xA0 # lit ''Hint '')) \<in> set [lit ''help'', lit ''clue'', lit ''hint'']"
    by (simp add: string_eval)
  have a: "3 < ATTEMPTS" by (simp add: ATTEMPTS_def)
  have r: "right_answer latin1 (casefold latin1 (strip latin1 (0xA0 # lit ''Hint ''))) [lit ''hint'']"
    by (simp add: string_eval)
  have n: "run_loop latin1 ?q 7 4 True [lit ''a hint''] =
     ([Print_question 7 (lit ''What am I?''), Prompt 5,
       Print_right 5, Sound ''short-success.mp3'' True], Inr (5, []))"
    by (simp add: run_eval string_eval)
  from hint_costs_one_attempt[OF h a, where q = ?q and q_num = 7 and clue_used = False
      and ins = "[lit ''a hint'']", THEN conjunct1]
  have "run_loop latin1 ?q 7 3 False [0xA0 # lit ''Hint '', lit ''a hint''] =
     ([Print_question 7 (lit ''What am I?''), Print_help_offer, Prompt 4,
       Print_hint (lit ''A clue''), Sound ''beep.mp3'' False,
       Print_question 7 (lit ''What am I?''), Prompt 5,
       Print_right 5, Sound ''short-success.mp3'' True], Inr (5, []))"
    by (simp add: n emit_def)
  with h a r show ?thesis by (intro conjI)
qed

subsection \<open>C8: empty input\<close>

text \<open>
  C8: a line of whitespace only (the empty line included) makes the prompt loop print its
  notice and prompt again with the same number. From every state with an attempt left,
  the session on the line followed by \<open>ins\<close> is the session on \<open>ins\<close> from the same
  \<open>attempt\<close> and \<open>clue_used\<close>, with the prompt and the notice put in front of its first
  prompt; and at every prompt of a session, typing the line before \<open>ins\<close> only adds the
  notice and a second prompt of the same number. So the line consumes no attempt, leaves
  \<open>clue_used\<close> as it is, and neither aborts nor returns.
\<close>

theorem blank_input_changes_nothing:
  assumes "\<forall>c \<in> set line. isspace U c"
  shows "read_answer U attempt (line # ins) =
      emit [Prompt (attempt + 1), Print_empty_notice] (read_answer U attempt ins) \<and>
    (attempt < ATTEMPTS \<longrightarrow>
       (\<exists>rest evs.
          run_loop U q q_num attempt clue_used ins =
            emit (Print_question q_num (q_question q) #
                  (if \<not> clue_used then [Print_help_offer] else [])) rest \<and>
          run_loop U q q_num attempt clue_used (line # ins) =
            emit (Print_question q_num (q_question q) #
                  (if \<not> clue_used then [Print_help_offer] else []) @
                  [Prompt (attempt + 1), Print_empty_notice]) rest \<and>
          fst rest = Prompt (attempt + 1) # evs)) \<and>
    (snd (run_single_question U q q_num pre) = Inl EOFError \<longrightarrow>
       (\<exists>out k rest evs.
          fst (run_single_question U q q_num pre) = out @ [Prompt k] \<and>
          run_single_question U q q_num (pre @ ins) = emit out rest \<and>
          run_single_question U q q_num (pre @ line # ins) =
            emit (out @ [Prompt k, Print_empty_notice]) rest \<and>
          fst rest = Prompt k # evs))"
proof (intro conjI impI)
  from assms have "strip U line = []" by (simp add: strip_Nil_iff)
  then have "casefold U (strip U line) = []" by (simp add: casefold_def)
  then have blank: "kind_of U q line = Blank" by (simp only: kind_of_Blank_iff)
  {
    show "read_answer U attempt (line # ins) =
      emit [Prompt (attempt + 1), Print_empty_notice] (read_answer U attempt ins)"
      using blank by (rule read_answer_Blank)
  }
  {
    assume a: "attempt < ATTEMPTS"
    let ?rest = "after_read U q q_num attempt clue_used (read_answer U attempt ins)"
    from body_starts_with_prompt[of U q q_num attempt clue_used ins] obtain evs where
      p: "fst ?rest = Prompt (attempt + 1) # evs" by blast
    have "run_loop U q q_num attempt clue_used ins =
            emit (Print_question q_num (q_question q) #
                  (if \<not> clue_used then [Print_help_offer] else [])) ?rest \<and>
          run_loop U q q_num attempt clue_used (line # ins) =
            emit (Print_question q_num (q_question q) #
                  (if \<not> clue_used then [Print_help_offer] else []) @
                  [Prompt (attempt + 1), Print_empty_notice]) ?rest \<and>
          fst ?rest = Prompt (attempt + 1) # evs"
      using run_loop_unfold[OF a, of U q q_num clue_used ins]
        run_loop_Blank[OF a blank, of q_num clue_used ins] p
      by (simp add: header_def)
    then show "\<exists>rest evs.
          run_loop U q q_num attempt clue_used ins =
            emit (Print_question q_num (q_question q) #
                  (if \<not> clue_used then [Print_help_offer] else [])) rest \<and>
          run_loop U q q_num attempt clue_used (line # ins) =
            emit (Print_question q_num (q_question q) #
                  (if \<not> clue_used then [Print_help_offer] else []) @
                  [Prompt (attempt + 1), Print_empty_notice]) rest \<and>
          fst rest = Prompt (attempt + 1) # evs"
      by blast
  }
  {
    assume "snd (run_single_question U q q_num pre) = Inl EOFError"
    then have "snd (run_loop U q q_num 0 False pre) = Inl EOFError"
      by (simp add: run_single_question_def)
    from run_loop_at_prompt[OF this] obtain out attempt' clue_used' where
      1: "fst (run_loop U q q_num 0 False pre) = out @ [Prompt (attempt' + 1)]"
      and 2: "\<And>xs. run_loop U q q_num 0 False (pre @ xs) =
        emit out (after_read U q q_num attempt' clue_used' (read_answer U attempt' xs))"
      by blast
    let ?rest = "after_read U q q_num attempt' clue_used' (read_answer U attempt' ins)"
    from body_starts_with_prompt[of U q q_num attempt' clue_used' ins] obtain evs where
      p: "fst ?rest = Prompt (attempt' + 1) # evs" by blast
    have "fst (run_single_question U q q_num pre) = out @ [Prompt (attempt' + 1)] \<and>
          run_single_question U q q_num (pre @ ins) = emit out ?rest \<and>
          run_single_question U q q_num (pre @ line # ins) =
            emit (out @ [Prompt (attempt' + 1), Print_empty_notice]) ?rest \<and>
          fst ?rest = Prompt (attempt' + 1) # evs"
      using 1 2[of ins] 2[of "line # ins"] p
      by (simp add: run_single_question_def body_Blank[OF blank] emit_emit)
    then show "\<exists>out k rest evs.
          fst (run_single_question U q q_num pre) = out @ [Prompt k] \<and>
          run_single_question U q q_num (pre @ ins) = emit out rest \<and>
          run_single_question U q q_num (pre @ line # ins) =
            emit (out @ [Prompt k, Print_empty_notice]) rest \<and>
          fst rest = Prompt k # evs"
      by blast
  }
qed

text \<open>
  After the clue was used, a line of a no-break space, a space and a tab: the prompt 3 is
  repeated, and the hint request that follows is still told that the clue was asked for
  before.
\<close>

theorem blank_input_changes_nothing_witness:
  "list_all (isspace latin1) [0xA0, 0x20, 0x09] \<and> 2 < ATTEMPTS \<and>
   run_loop latin1
     \<lparr>q_question = lit ''Capital of Italy?'', q_answer = [lit ''Rome''], q_hint = lit ''Seven hills''\<rparr>
     1 2 True [[0xA0, 0x20, 0x09], lit ''help'', lit ''rome''] =
     ([Print_question 1 (lit ''Capital of Italy?''), Prompt 3, Print_empty_notice, Prompt 3,
       Print_already_asked, Print_hint (lit ''Seven hills''), Sound ''beep.mp3'' False,
       Print_question 1 (lit ''Capital of Italy?''), Prompt 4,
       Print_right 4, Sound ''short-success.mp3'' True], Inr (4, [])) \<and>
   run_loop latin1
     \<lparr>q_question = lit ''Capital of Italy?'', q_answer = [lit ''Rome''], q_hint = lit ''Seven hills''\<rparr>
     1 2 True [lit ''help'', lit ''rome''] =
     ([Print_question 1 (lit ''Capital of Italy?''), Prompt 3,
       Print_already_asked, Print_hint (lit ''Seven hills''), Sound ''beep.mp3'' False,
       Print_question 1 (lit ''Capital of Italy?''), Prompt 4,
       Print_right 4, Sound ''short-success.mp3'' True], Inr (4, []))"
proof -
  let ?q = "\<lparr>q_question = lit ''Capital of Italy?'', q_answer = [lit ''Rome''], q_hint = lit ''Seven hills''\<rparr>"
  have b: "\<forall>c \<in> set [0xA0, 0x20, 0x09]. isspace latin1 c" by (simp add: string_eval)
  have a: "2 < ATTEMPTS" by (simp add: ATTEMPTS_def)
  have r: "run_loop latin1 ?q 1 2 True [lit ''help'', lit ''rome''] =
     ([Print_question 1 (lit ''Capital of Italy?''), Prompt 3,
       Print_already_asked, Print_hint (lit ''Seven hills''), Sound ''beep.mp3'' False,
       Print_question 1 (lit ''Capital of Italy?''), Prompt 4,
       Print_right 4, Sound ''short-success.mp3'' True], Inr (4, []))"
    by (simp add: run_eval string_eval)
  from blank_input_changes_nothing[OF b, where attempt = 2 and q = ?q and q_num = 1
      and clue_used = True and ins = "[lit ''help'', lit ''rome'']", THEN conjunct2, THEN conjunct1,
      THEN mp, OF a]
  obtain rest where 1: "run_loop latin1 ?q 1 2 True [lit ''help'', lit ''rome''] =
        emit (Print_question 1 (q_question ?q) # (if \<not> True then [Print_help_offer] else [])) rest"
    and 2: "run_loop latin1 ?q 1 2 True [[0xA0, 0x20, 0x09], lit ''help'', lit ''rome''] =
        emit (Print_question 1 (q_question ?q) # (if \<not> True then [Print_help_offer] else []) @
              [Prompt (2 + 1), Print_empty_notice]) rest"
    by blast
  from 1 r have "rest = ([Prompt 3,
       Print_already_asked, Print_hint (lit ''Seven hills''), Sound ''beep.mp3'' False,
       Print_question 1 (lit ''Capital of Italy?''), Prompt 4,
       Print_right 4, Sound ''short-success.mp3'' True], Inr (4, []))"
    by (cases rest) (simp add: emit_def)
  with 2 have "run_loop latin1 ?q 1 2 True [[0xA0, 0x20, 0x09], lit ''help'', lit ''rome''] =
     ([Print_question 1 (lit ''Capital of Italy?''), Prompt 3, Print_empty_notice, Prompt 3,
       Print_already_asked, Print_hint (lit ''Seven hills''), Sound ''beep.mp3'' False,
       Print_question 1 (lit ''Capital of Italy?''), Prompt 4,
       Print_right 4, Sound ''short-success.mp3'' True], Inr (4, []))"
    by (simp add: emit_def)
  with b a r show ?thesis by (simp add: list_all_iff)
qed

subsection \<open>C9: the range of the score\<close>

text \<open>
  C9: for a non-empty list of outcomes that are each 0 or between 1 and 5, the score lies
  between 0 and 10, and between 6 and 10 when no outcome is 0, under every rounding that
  is monotone and leaves small integers alone.
\<close>

theorem score_bounds:
  assumes "float_rounding rnd" and "results \<noteq> []"
    and "\<forall>r \<in> set results. r = 0 \<or> (1 \<le> r \<and> r \<le> 5)"
  shows "\<exists>g. end_game rnd results = Inr g \<and>
     0 \<le> final_score g \<and> final_score g \<le> 10 \<and>
     (0 \<notin> set results \<longrightarrow> 6 \<le> final_score g)"
proof -
  let ?x = "of_int (sum_list results + int (count_list results 0) * 10) / of_int (int (length results)) :: real"
  have rng: "\<forall>r \<in> set results. 0 \<le> r \<and> r \<le> 5" using assms(3) by auto
  note f = assms(1)
  have r: "rnd 0 = 0" "rnd 1 = 1" "rnd 5 = 5" "rnd 6 = 6" "rnd 9 = 9" "rnd 10 = 10"
    using float_rounding_int[OF f, of 0] float_rounding_int[OF f, of 1]
      float_rounding_int[OF f, of 5] float_rounding_int[OF f, of 6]
      float_rounding_int[OF f, of 9] float_rounding_int[OF f, of 10]
    by simp_all
  from avg_bounds(1)[OF assms(2) rng] have a1: "1 \<le> rnd ?x"
    using float_rounding_mono[OF f, of 1 ?x] r by simp
  from avg_bounds(2)[OF assms(2) rng] have a10: "rnd ?x \<le> 10"
    using float_rounding_mono[OF f, of ?x 10] r by simp
  from end_game_score[OF assms(2), of rnd] obtain g where g: "end_game rnd results = Inr g"
    "final_score g = (if count_list results 0 \<noteq> 0 then rnd (10 - rnd ?x) else rnd (11 - rnd ?x))"
    by blast
  have b: "0 \<le> final_score g \<and> final_score g \<le> 10 \<and> (0 \<notin> set results \<longrightarrow> 6 \<le> final_score g)"
  proof (cases "count_list results 0 = 0")
    case True
    from avg_bounds(3)[OF assms(2) rng True] have a5: "rnd ?x \<le> 5"
      using float_rounding_mono[OF f, of ?x 5] r by simp
    have "rnd 6 \<le> rnd (11 - rnd ?x)" using a5 by (intro float_rounding_mono[OF f]) simp
    moreover have "rnd (11 - rnd ?x) \<le> rnd 10" using a1 by (intro float_rounding_mono[OF f]) simp
    ultimately show ?thesis using g(2) True r by simp
  next
    case False
    then have z: "0 \<in> set results" by (simp add: count_list_0_iff)
    have "rnd 0 \<le> rnd (10 - rnd ?x)" using a10 by (intro float_rounding_mono[OF f]) simp
    moreover have "rnd (10 - rnd ?x) \<le> rnd 9" using a1 by (intro float_rounding_mono[OF f]) simp
    ultimately show ?thesis using g(2) False r z by simp
  qed
  with g(1) show ?thesis by blast
qed

text \<open>The outcomes \<open>[5, 5, 4]\<close> score 19/3.\<close>

theorem score_bounds_witness:
  "float_rounding (\<lambda>x. x) \<and> [5, 5, 4] \<noteq> ([] :: int list) \<and>
   list_all (\<lambda>r. r = 0 \<or> (1 \<le> r \<and> r \<le> 5)) [5, 5, 4 :: int] \<and> 0 \<notin> set [5, 5, 4 :: int] \<and>
   (\<exists>g. end_game (\<lambda>x. x) [5, 5, 4] = Inr g \<and> final_score g = 19 / 3 \<and>
      6 \<le> final_score g \<and> final_score g \<le> 10)"
proof -
  have ne: "[5, 5, 4] \<noteq> ([] :: int list)" by simp
  have b: "\<forall>r \<in> set [5, 5, 4 :: int]. r = 0 \<or> (1 \<le> r \<and> r \<le> 5)" by simp
  have z: "0 \<notin> set [5, 5, 4 :: int]" by simp
  have e: "\<exists>g. end_game (\<lambda>x. x) [5, 5, 4] = Inr g \<and> final_score g = 19 / 3"
    by (simp add: end_game_def)
  from score_bounds[OF float_rounding_exact ne b] e z
  have "\<exists>g. end_game (\<lambda>x. x) [5, 5, 4] = Inr g \<and> final_score g = 19 / 3 \<and>
      6 \<le> final_score g \<and> final_score g \<le> 10"
    by auto
  with float_rounding_exact ne z show ?thesis by simp
qed

subsection \<open>C10: an empty accepted answer\<close>

text \<open>
  C10: when an accepted answer case-folds to the empty string, \<open>right_answer\<close> holds of
  every given answer, and every line that is not empty after stripping and is neither an
  exit nor a hint keyword is a right answer: typed first it makes \<open>run_single_question\<close>
  return 1, and typed at any state with an attempt left it returns the counter plus one.
\<close>

theorem empty_accepted_answer:
  assumes "a \<in> set (q_answer q)" and "casefold U a = []"
  shows "right_answer U given_answer (q_answer q) \<and>
    (casefold U (strip U line) \<noteq> [] \<and>
     casefold U (strip U line) \<notin> set [lit ''quit'', lit ''exit''] \<and>
     casefold U (strip U line) \<notin> set [lit ''help'', lit ''clue'', lit ''hint''] \<longrightarrow>
       snd (run_single_question U q q_num (line # ins)) = Inr (1, ins) \<and>
       (attempt < ATTEMPTS \<longrightarrow>
          snd (run_loop U q q_num attempt clue_used (line # ins)) = Inr (attempt + 1, ins)))"
proof -
  have ra: "right_answer U g (q_answer q)" for g
  proof -
    have "contains g (casefold U a)" using assms(2) by (simp add: contains_empty)
    with assms(1) show ?thesis unfolding right_answer_iff by blast
  qed
  have "kind_of U q line = Correct"
    if "casefold U (strip U line) \<noteq> []"
      "casefold U (strip U line) \<notin> set [lit ''quit'', lit ''exit'']"
      "casefold U (strip U line) \<notin> set [lit ''help'', lit ''clue'', lit ''hint'']"
    using that ra by (simp add: kind_of_def Let_def)
  then show ?thesis using ra
    by (auto simp add: run_single_question_def snd_run_loop_kind ATTEMPTS_def)
qed

text \<open>With the accepted answers \<open>4\<close> and the empty string, the answer \<open>Five\<close> is right.\<close>

theorem empty_accepted_answer_witness:
  "[] \<in> set (q_answer \<lparr>q_question = lit ''2 + 2?'', q_answer = [lit ''4'', []], q_hint = lit ''Count''\<rparr>) \<and>
   casefold latin1 [] = [] \<and>
   right_answer latin1 (lit ''five'')
     (q_answer \<lparr>q_question = lit ''2 + 2?'', q_answer = [lit ''4'', []], q_hint = lit ''Count''\<rparr>) \<and>
   snd (run_single_question latin1
     \<lparr>q_question = lit ''2 + 2?'', q_answer = [lit ''4'', []], q_hint = lit ''Count''\<rparr> 1
     [lit ''Five'', lit ''4'']) = Inr (1, [lit ''4''])"
proof -
  let ?q = "\<lparr>q_question = lit ''2 + 2?'', q_answer = [lit ''4'', []], q_hint = lit ''Count''\<rparr>"
  have m: "[] \<in> set (q_answer ?q)" by simp
  have c: "casefold latin1 [] = []" by (simp add: casefold_def)
  have k: "casefold latin1 (strip latin1 (lit ''Five'')) \<noteq> [] \<and>
     casefold latin1 (strip latin1 (lit ''Five'')) \<notin> set [lit ''quit'', lit ''exit''] \<and>
     casefold latin1 (strip latin1 (lit ''Five'')) \<notin> set [lit ''help'', lit ''clue'', lit ''hint'']"
    by (simp add: string_eval)
  note t = empty_accepted_answer[OF m c, where given_answer = "lit ''five''" and line = "lit ''Five''"
      and q_num = 1 and ins = "[lit ''4'']" and attempt = 0 and clue_used = False]
  from t have r: "right_answer latin1 (lit ''five'') (q_answer ?q)" by (rule conjunct1)
  from t[THEN conjunct2, THEN mp, OF k, THEN conjunct1]
  have s: "snd (run_single_question latin1 ?q 1 [lit ''Five'', lit ''4'']) = Inr (1, [lit ''4''])" .
  from m c r s show ?thesis by (intro conjI)
qed

end
